theory Spec2Isabelle
  imports Main
begin

unbundle bit_operations_syntax

section \<open>Values, outcomes and reflected types\<close>

text \<open>
  The package works on an enum type through Go's reflection. What the code reads of a
  reflected type is its name, its kind, its size in bytes and its exported methods, in the
  order \<open>Type.Method(i)\<close> lists them. A value held in an \<open>interface{}\<close> is a signed
  integer, an unsigned integer or a string. A Go panic is an outcome of its own.
\<close>

datatype 'a Outcome = Panic | Return 'a

datatype Kind =
    KInvalid | KBool
  | KInt | KInt8 | KInt16 | KInt32 | KInt64
  | KUint | KUint8 | KUint16 | KUint32 | KUint64 | KUintptr
  | KFloat32 | KFloat64 | KComplex64 | KComplex128
  | KArray | KChan | KFunc | KInterface | KMap | KPointer | KSlice
  | KString | KStruct | KUnsafePointer

datatype GoValue = IntV int | UintV nat | StrV string

text \<open>
  One exported method of the type: \<open>NumIn\<close> and \<open>NumOut\<close> are those of its function
  type (the receiver counts as an input), \<open>Out0IsEnum\<close> is \<open>m.Type.Out(0) == enumType\<close>,
  and \<open>Invoke\<close> is the outcome of
  \<open>method.Func.Call(args[:])[0].Convert(enumType).Interface()\<close> with the zero receiver as
  the only argument: \<open>Panic\<close> when the call has too few arguments, no result, or a result
  that does not convert to the enum type.
\<close>

record Method =
  Name :: string
  NumIn :: nat
  NumOut :: nat
  Out0IsEnum :: bool
  Invoke :: "GoValue Outcome"

record EnumType =
  TypeName :: string
  TypeString :: string
  TypeKind :: Kind
  TypeSize :: nat
  Methods :: "Method list"

datatype PtrType = PtrTo EnumType

fun Elem :: "PtrType \<Rightarrow> EnumType" where
  "Elem (PtrTo t) = t"

text \<open>The error built by \<open>fmt.Errorf("couldn't parse %q into a %q", s, name)\<close>: the text
  and the type name it quotes.\<close>

datatype error = CouldntParse string string

section \<open>Library functions the package calls\<close>

subsection \<open>strings\<close>

text \<open>\<open>strings.ToLower\<close>, \<open>strings.TrimSpace\<close> and \<open>strings.Split\<close> on byte strings. The
  model is the ASCII behaviour of the three functions: bytes from 128 on are left as they
  are. \<open>strings_Split\<close> takes the one-byte separator as a character.\<close>

definition lower_byte :: "char \<Rightarrow> char" where
  "lower_byte c =
     (if 65 \<le> (of_char c :: nat) \<and> (of_char c :: nat) \<le> 90
      then char_of ((of_char c :: nat) + 32) else c)"

definition strings_ToLower :: "string \<Rightarrow> string" where
  "strings_ToLower s = map lower_byte s"

definition isSpace :: "char \<Rightarrow> bool" where
  "isSpace c \<longleftrightarrow> (of_char c :: nat) \<in> {9, 10, 11, 12, 13, 32}"

definition strings_TrimSpace :: "string \<Rightarrow> string" where
  "strings_TrimSpace s = rev (dropWhile isSpace (rev (dropWhile isSpace s)))"

fun strings_Split :: "string \<Rightarrow> char \<Rightarrow> string list" where
  "strings_Split [] sep = [[]]"
| "strings_Split (c # cs) sep =
     (if c = sep then [] # strings_Split cs sep
      else (case strings_Split cs sep of
              [] \<Rightarrow> [[c]]
            | p # ps \<Rightarrow> (c # p) # ps))"

subsection \<open>strconv\<close>

datatype NumError = ErrSyntax | ErrRange | ErrBase | ErrBitSize

definition digits :: string where
  "digits = ''0123456789abcdefghijklmnopqrstuvwxyz''"

text \<open>\<open>formatBits\<close>: the digits of \<open>u\<close> in base \<open>b\<close>, most significant first, put in front
  of \<open>acc\<close>.\<close>

function formatBits :: "nat \<Rightarrow> nat \<Rightarrow> string \<Rightarrow> string" where
  "formatBits u b acc =
     (if b < 2 \<or> u < b then (digits ! u) # acc
      else formatBits (u div b) b ((digits ! (u mod b)) # acc))"
  by pat_completeness auto
termination
  by (relation "measure (\<lambda>(u, b, acc). u)") auto

definition strconv_FormatUint :: "nat \<Rightarrow> int \<Rightarrow> string Outcome" where
  "strconv_FormatUint i base =
     (if base < 2 \<or> 36 < base then Panic else Return (formatBits i (nat base) []))"

text \<open>\<open>lower(c)\<close> of strconv is \<open>c | ('x' - 'X')\<close>.\<close>

definition lower :: "char \<Rightarrow> nat" where
  "lower c = (of_char c :: nat) OR 32"

datatype Saw = SawStart | SawDigit | SawUnderscore | SawOther

definition underscoreOK_step :: "bool \<Rightarrow> Saw \<Rightarrow> char \<Rightarrow> Saw option" where
  "underscoreOK_step hex saw c =
     (if (48 \<le> (of_char c :: nat) \<and> (of_char c :: nat) \<le> 57)
         \<or> (hex \<and> 97 \<le> lower c \<and> lower c \<le> 102)
      then Some SawDigit
      else if c = CHR ''_''
      then (if saw \<noteq> SawDigit then None else Some SawUnderscore)
      else if saw = SawUnderscore then None
      else Some SawOther)"

fun underscoreOK_loop :: "bool \<Rightarrow> Saw \<Rightarrow> string \<Rightarrow> bool" where
  "underscoreOK_loop hex saw [] = (saw \<noteq> SawUnderscore)"
| "underscoreOK_loop hex saw (c # cs) =
     (case underscoreOK_step hex saw c of
        None \<Rightarrow> False
      | Some saw' \<Rightarrow> underscoreOK_loop hex saw' cs)"

definition underscoreOK :: "string \<Rightarrow> bool" where
  "underscoreOK s0 =
     (let s = (case s0 of c # cs \<Rightarrow> if c = CHR ''-'' \<or> c = CHR ''+'' then cs else s0
                        | [] \<Rightarrow> s0)
      in case s of
           c0 # c1 # cs \<Rightarrow>
             if c0 = CHR ''0'' \<and> (lower c1 = 98 \<or> lower c1 = 111 \<or> lower c1 = 120)
             then underscoreOK_loop (lower c1 = 120) SawDigit cs
             else underscoreOK_loop False SawStart s
         | _ \<Rightarrow> underscoreOK_loop False SawStart s)"

text \<open>The digit loop of \<open>strconv.ParseUint\<close>, one byte at a time: an underscore is
  skipped (\<open>Skip\<close>), a byte that is no digit of the base or a value out of range ends the
  loop with the pair returned (\<open>Fail\<close>), a digit gives the next \<open>n\<close> (\<open>Next\<close>). \<open>n\<close> is a
  \<open>uint64\<close>: the product cannot wrap below the cutoff, the sum can, and the code tests
  for it.\<close>

definition digitVal :: "char \<Rightarrow> nat option" where
  "digitVal c =
     (if 48 \<le> (of_char c :: nat) \<and> (of_char c :: nat) \<le> 57 then Some ((of_char c :: nat) - 48)
      else if 97 \<le> lower c \<and> lower c \<le> 122 then Some (lower c - 97 + 10)
      else None)"

datatype Step = Skip | Fail "nat \<times> NumError option" | Next nat

definition ParseUint_step :: "bool \<Rightarrow> nat \<Rightarrow> nat \<Rightarrow> nat \<Rightarrow> char \<Rightarrow> nat \<Rightarrow> Step" where
  "ParseUint_step base0 base cutoff maxVal c n =
     (if c = CHR ''_'' \<and> base0 then Skip
      else case digitVal c of
        None \<Rightarrow> Fail (0, Some ErrSyntax)
      | Some d \<Rightarrow>
          if d \<ge> base then Fail (0, Some ErrSyntax)
          else if n \<ge> cutoff then Fail (maxVal, Some ErrRange)
          else
            let n' = (n * base) mod 2 ^ 64;
                n1 = (n' + d) mod 2 ^ 64
            in if n1 < n' \<or> n1 > maxVal then Fail (maxVal, Some ErrRange)
               else Next n1)"

fun ParseUint_loop ::
  "string \<Rightarrow> bool \<Rightarrow> nat \<Rightarrow> nat \<Rightarrow> nat \<Rightarrow> string \<Rightarrow> bool \<Rightarrow> nat \<Rightarrow> nat \<times> NumError option" where
  "ParseUint_loop s0 base0 base cutoff maxVal [] underscores n =
     (if underscores \<and> \<not> underscoreOK s0 then (0, Some ErrSyntax) else (n, None))"
| "ParseUint_loop s0 base0 base cutoff maxVal (c # cs) underscores n =
     (case ParseUint_step base0 base cutoff maxVal c n of
        Skip \<Rightarrow> ParseUint_loop s0 base0 base cutoff maxVal cs True n
      | Fail r \<Rightarrow> r
      | Next n1 \<Rightarrow> ParseUint_loop s0 base0 base cutoff maxVal cs underscores n1)"

text \<open>\<open>strconv.ParseUint(s, base, bitSize)\<close>, with \<open>IntSize = 64\<close>. For base 0 the
  base is read off the prefix of the text (\<open>basePrefix\<close>: \<open>0b\<close>, \<open>0o\<close>, \<open>0x\<close> followed by
  at least one more byte, else a leading \<open>0\<close> for octal, else decimal). \<open>maxVal\<close> is
  \<open>uint64(1)<<uint(bitSize) - 1\<close> in 64-bit arithmetic.\<close>

definition basePrefix :: "string \<Rightarrow> int \<times> string" where
  "basePrefix s0 =
     (case s0 of
        [] \<Rightarrow> (10, s0)
      | c0 # rest \<Rightarrow>
          if c0 = CHR ''0'' then
            (case rest of
               c1 # c2 # cs \<Rightarrow>
                 if lower c1 = 98 then (2, c2 # cs)
                 else if lower c1 = 111 then (8, c2 # cs)
                 else if lower c1 = 120 then (16, c2 # cs)
                 else (8, rest)
             | _ \<Rightarrow> (8, rest))
          else (10, s0))"

definition strconv_ParseUint :: "string \<Rightarrow> int \<Rightarrow> int \<Rightarrow> nat \<times> NumError option" where
  "strconv_ParseUint s0 base bitSize0 =
     (if s0 = [] then (0, Some ErrSyntax)
      else if \<not> (base = 0 \<or> (2 \<le> base \<and> base \<le> 36)) then (0, Some ErrBase)
      else
        let base0 = (base = 0);
            base' = (if base0 then fst (basePrefix s0) else base);
            s = (if base0 then snd (basePrefix s0) else s0);
            bitSize = (if bitSize0 = 0 then 64 else bitSize0)
        in if bitSize < 0 \<or> bitSize > 64 then (0, Some ErrBitSize)
           else
             let cutoff = (2 ^ 64 - 1) div nat base' + 1;
                 maxVal = ((2 ^ nat bitSize) mod 2 ^ 64 + 2 ^ 64 - 1) mod 2 ^ 64
             in ParseUint_loop s0 base0 (nat base') cutoff maxVal s False 0)"

text \<open>\<open>strconv.ParseInt(s, base, bitSize)\<close>: the sign is picked off, the rest goes
  through \<open>ParseUint\<close> with the same bit size, and the range is checked against
  \<open>1 << (bitSize-1)\<close>.\<close>

definition strconv_ParseInt :: "string \<Rightarrow> int \<Rightarrow> int \<Rightarrow> int \<times> NumError option" where
  "strconv_ParseInt s0 base bitSize0 =
     (if s0 = [] then (0, Some ErrSyntax)
      else
        let neg = (hd s0 = CHR ''-'');
            s = (if hd s0 = CHR ''+'' \<or> hd s0 = CHR ''-'' then tl s0 else s0);
            (un, err) = strconv_ParseUint s base bitSize0
        in if err \<noteq> None \<and> err \<noteq> Some ErrRange then (0, err)
           else
             let bitSize = (if bitSize0 = 0 then 64 else bitSize0);
                 cutoff = (2 :: nat) ^ nat (bitSize - 1)
             in if \<not> neg \<and> un \<ge> cutoff then (int cutoff - 1, Some ErrRange)
                else if neg \<and> un > cutoff then (- int cutoff, Some ErrRange)
                else (if neg then - int un else int un, None))"

subsection \<open>fmt and reflect\<close>

text \<open>\<open>fmt.Sprintf("%d", v)\<close>: the decimal digits of an integer, with a minus sign when
  it is negative; a string operand is reported as a bad verb.\<close>

definition Sprintf_d :: "EnumType \<Rightarrow> GoValue \<Rightarrow> string" where
  "Sprintf_d t v =
     (case v of
        IntV i \<Rightarrow> (if i < 0 then ''-'' else []) @ formatBits (nat \<bar>i\<bar>) 10 []
      | UintV n \<Rightarrow> formatBits n 10 []
      | StrV s \<Rightarrow> ''%!d('' @ TypeString t @ ''='' @ s @ '')'')"

text \<open>\<open>Value.Uint()\<close>, \<open>Value.SetInt\<close> and \<open>Value.SetUint\<close> panic on a value of another
  kind.\<close>

definition Uint :: "GoValue \<Rightarrow> nat Outcome" where
  "Uint v = (case v of UintV n \<Rightarrow> Return n | _ \<Rightarrow> Panic)"

definition isIntKind :: "Kind \<Rightarrow> bool" where
  "isIntKind k \<longleftrightarrow> k = KInt \<or> k = KInt8 \<or> k = KInt16 \<or> k = KInt32 \<or> k = KInt64"

definition isUintKind :: "Kind \<Rightarrow> bool" where
  "isUintKind k \<longleftrightarrow>
     k = KUint \<or> k = KUint8 \<or> k = KUint16 \<or> k = KUint32 \<or> k = KUint64 \<or> k = KUintptr"

definition SetInt :: "Kind \<Rightarrow> int \<Rightarrow> GoValue Outcome" where
  "SetInt k i = (if isIntKind k then Return (IntV i) else Panic)"

definition SetUint :: "Kind \<Rightarrow> nat \<Rightarrow> GoValue Outcome" where
  "SetUint k n = (if isUintKind k then Return (UintV n) else Panic)"

definition MethodByName :: "EnumType \<Rightarrow> string \<Rightarrow> Method option" where
  "MethodByName t name = find (\<lambda>m. Name m = name) (Methods t)"

section \<open>The enum package\<close>

definition isValidEnumSymbolMethod :: "EnumType \<Rightarrow> Method \<Rightarrow> bool" where
  "isValidEnumSymbolMethod enumType m \<longleftrightarrow> NumIn m = 1 \<and> NumOut m = 1 \<and> Out0IsEnum m"

text \<open>\<open>GetSymbols\<close>: the callback is a closure in the source; here it takes the state it
  captures and returns it with its \<open>stop\<close> result.\<close>

fun GetSymbols_loop ::
  "EnumType \<Rightarrow> Method list \<Rightarrow> (string \<Rightarrow> GoValue \<Rightarrow> 's \<Rightarrow> (bool \<times> 's) Outcome) \<Rightarrow> 's \<Rightarrow> 's Outcome" where
  "GetSymbols_loop enumType [] esi s = Return s"
| "GetSymbols_loop enumType (method # rest) esi s =
     (if \<not> isValidEnumSymbolMethod enumType method then GetSymbols_loop enumType rest esi s
      else
        (case Invoke method of
           Panic \<Rightarrow> Panic
         | Return val \<Rightarrow>
             (case esi (Name method) val s of
                Panic \<Rightarrow> Panic
              | Return (stop, s') \<Rightarrow>
                  if stop then Return s' else GetSymbols_loop enumType rest esi s')))"

definition GetSymbols ::
  "EnumType \<Rightarrow> (string \<Rightarrow> GoValue \<Rightarrow> 's \<Rightarrow> (bool \<times> 's) Outcome) \<Rightarrow> 's \<Rightarrow> 's Outcome" where
  "GetSymbols enumType esi s = GetSymbols_loop enumType (Methods enumType) esi s"

definition String_esi :: "GoValue \<Rightarrow> string \<Rightarrow> GoValue \<Rightarrow> string \<Rightarrow> (bool \<times> string) Outcome" where
  "String_esi enumValue symbol val symbolResult =
     (if val = enumValue then Return (True, symbol) else Return (False, symbolResult))"

definition String_sym :: "GoValue \<Rightarrow> EnumType \<Rightarrow> string Outcome" where
  "String_sym enumValue enumType = GetSymbols enumType (String_esi enumValue) []"

definition StringInt :: "GoValue \<Rightarrow> EnumType \<Rightarrow> string Outcome" where
  "StringInt intValue enumType =
     (case String_sym intValue enumType of
        Panic \<Rightarrow> Panic
      | Return symbolName \<Rightarrow>
          if symbolName \<noteq> [] then Return symbolName
          else Return (Sprintf_d enumType intValue))"

text \<open>The callback of \<open>StringUintFlags\<close>; its state is \<open>(bitsFound, symbolNames)\<close>.\<close>

definition StringUintFlags_esi ::
  "nat \<Rightarrow> string \<Rightarrow> GoValue \<Rightarrow> nat \<times> string \<Rightarrow> (bool \<times> nat \<times> string) Outcome" where
  "StringUintFlags_esi intValue symbolName symbolValue st =
     (case Uint symbolValue of
        Panic \<Rightarrow> Panic
      | Return symVal \<Rightarrow>
          (let bitsFound = fst st; symbolNames = snd st
           in if intValue = 0 \<and> symVal = 0
              then Return (True, bitsFound, symbolNames @ symbolName)
              else if symVal \<noteq> 0 \<and> (intValue AND symVal) = symVal
              then Return (False, bitsFound OR symVal,
                           (if length symbolNames > 0 then symbolNames @ '', '' else symbolNames)
                           @ symbolName)
              else Return (False, bitsFound, symbolNames)))"

definition StringUintFlags :: "nat \<Rightarrow> EnumType \<Rightarrow> int \<Rightarrow> string Outcome" where
  "StringUintFlags intValue enumType intBase =
     (case GetSymbols enumType (StringUintFlags_esi intValue) (0, []) of
        Panic \<Rightarrow> Panic
      | Return (bitsFound, symbolNames) \<Rightarrow>
          if bitsFound \<noteq> intValue then
            (case strconv_FormatUint (intValue XOR bitsFound) intBase of
               Panic \<Rightarrow> Panic
             | Return ds \<Rightarrow>
                 Return ((if length symbolNames > 0 then symbolNames @ '', '' else symbolNames)
                         @ ''0x'' @ ds))
          else Return symbolNames)"

definition findMethod :: "EnumType \<Rightarrow> string \<Rightarrow> bool \<Rightarrow> Method option" where
  "findMethod enumType methodName caseInsensitive =
     (if \<not> caseInsensitive then MethodByName enumType methodName
      else find (\<lambda>method. strings_ToLower (Name method) = strings_ToLower methodName)
                (Methods enumType))"

definition Parse :: "PtrType \<Rightarrow> string \<Rightarrow> bool \<Rightarrow> (GoValue option \<times> error option) Outcome" where
  "Parse enumTypePtr s caseInsensitive =
     (let enumType = Elem enumTypePtr
      in case findMethod enumType s caseInsensitive of
           Some method \<Rightarrow>
             (case Invoke method of
                Panic \<Rightarrow> Panic
              | Return v \<Rightarrow> Return (Some v, None))
         | None \<Rightarrow> Return (None, Some (CouldntParse s (TypeName enumType))))"

definition ParseInt ::
  "PtrType \<Rightarrow> string \<Rightarrow> bool \<Rightarrow> bool \<Rightarrow> (GoValue option \<times> error option) Outcome" where
  "ParseInt enumTypePtr s caseInsensitive strict =
     (case Parse enumTypePtr s caseInsensitive of
        Panic \<Rightarrow> Panic
      | Return (enumVal, err) \<Rightarrow>
          if err = None \<or> strict then Return (enumVal, err)
          else
            let kind = TypeKind (Elem enumTypePtr);
                bitSize = int (TypeSize (Elem enumTypePtr)) * 8
            in if kind = KInt \<or> kind = KInt8 \<or> kind = KInt16 \<or> kind = KInt32 \<or> kind = KInt64
               then
                 (case strconv_ParseInt s 0 bitSize of
                    (intVal, None) \<Rightarrow>
                      (case SetInt kind intVal of
                         Panic \<Rightarrow> Panic
                       | Return val \<Rightarrow> Return (Some val, None))
                  | (intVal, Some parseErr) \<Rightarrow> Return (enumVal, err))
               else
                 (case strconv_ParseUint s 0 bitSize of
                    (intVal, None) \<Rightarrow>
                      (case SetUint kind intVal of
                         Panic \<Rightarrow> Panic
                       | Return val \<Rightarrow> Return (Some val, None))
                  | (intVal, Some parseErr) \<Rightarrow> Return (enumVal, err)))"

fun ParseUintFlags_loop ::
  "PtrType \<Rightarrow> bool \<Rightarrow> string list \<Rightarrow> nat \<Rightarrow> (nat \<times> error option) Outcome" where
  "ParseUintFlags_loop enumTypePtr caseInsensitive [] val = Return (val, None)"
| "ParseUintFlags_loop enumTypePtr caseInsensitive (f0 # rest) val =
     (let f = strings_TrimSpace f0
      in case Parse enumTypePtr f caseInsensitive of
           Panic \<Rightarrow> Panic
         | Return (v, err) \<Rightarrow>
             if err = None then
               (case v of
                  None \<Rightarrow> Panic
                | Some v' \<Rightarrow>
                    (case Uint v' of
                       Panic \<Rightarrow> Panic
                     | Return u \<Rightarrow>
                         ParseUintFlags_loop enumTypePtr caseInsensitive rest (val OR u)))
             else
               (case strconv_ParseUint f 0 (int (TypeSize (Elem enumTypePtr)) * 8) of
                  (i, None) \<Rightarrow> ParseUintFlags_loop enumTypePtr caseInsensitive rest (val OR i)
                | (i, Some e) \<Rightarrow>
                    Return (0, Some (CouldntParse f (TypeName (Elem enumTypePtr))))))"

definition ParseUintFlags :: "PtrType \<Rightarrow> string \<Rightarrow> bool \<Rightarrow> (nat \<times> error option) Outcome" where
  "ParseUintFlags enumTypePtr s caseInsensitive =
     ParseUintFlags_loop enumTypePtr caseInsensitive (strings_Split s CHR '','') 0"

section \<open>Symbols, traces and well-formed types\<close>

text \<open>The symbols of a type: name and value of every method that
  \<open>isValidEnumSymbolMethod\<close> accepts, in the order of the methods.\<close>

definition symbolsOf :: "EnumType \<Rightarrow> Method list \<Rightarrow> (string \<times> GoValue) list" where
  "symbolsOf t ms =
     concat (map (\<lambda>m. case Invoke m of Return v \<Rightarrow> [(Name m, v)] | Panic \<Rightarrow> [])
                 (filter (isValidEnumSymbolMethod t) ms))"

definition symbols :: "EnumType \<Rightarrow> (string \<times> GoValue) list" where
  "symbols t = symbolsOf t (Methods t)"

text \<open>A callback that also keeps the list of its own calls: the name and value it was
  given and the \<open>stop\<close> it returned.\<close>

definition traced ::
  "(string \<Rightarrow> GoValue \<Rightarrow> 's \<Rightarrow> (bool \<times> 's) Outcome) \<Rightarrow>
   string \<Rightarrow> GoValue \<Rightarrow> (string \<times> GoValue \<times> bool) list \<times> 's \<Rightarrow>
   (bool \<times> (string \<times> GoValue \<times> bool) list \<times> 's) Outcome" where
  "traced esi name v st =
     (case esi name v (snd st) of
        Panic \<Rightarrow> Panic
      | Return (stop, s') \<Rightarrow> Return (stop, fst st @ [(name, v, stop)], s'))"

definition calledWith :: "string \<times> GoValue \<times> bool \<Rightarrow> string \<times> GoValue" where
  "calledWith e = (fst e, fst (snd e))"

definition stopped :: "string \<times> GoValue \<times> bool \<Rightarrow> bool" where
  "stopped e = snd (snd e)"

text \<open>What Go guarantees of a type and its method set, for the integer and string kinds
  an enum is built on: the size that goes with the kind, exported identifiers as method
  names (ASCII letters, digits and underscores here), no two methods of one name, and
  symbol methods that return a value of the type.\<close>

definition bits :: "EnumType \<Rightarrow> nat" where
  "bits t = TypeSize t * 8"

definition kindSizes :: "Kind \<Rightarrow> nat list" where
  "kindSizes k =
     (if k = KInt8 \<or> k = KUint8 then [1]
      else if k = KInt16 \<or> k = KUint16 then [2]
      else if k = KInt32 \<or> k = KUint32 then [4]
      else if k = KInt64 \<or> k = KUint64 then [8]
      else if k = KInt \<or> k = KUint \<or> k = KUintptr then [4, 8]
      else if k = KString then [8, 16]
      else [])"

definition valueOfType :: "EnumType \<Rightarrow> GoValue \<Rightarrow> bool" where
  "valueOfType t v =
     (case v of
        IntV i \<Rightarrow> isIntKind (TypeKind t) \<and> - (2 ^ (bits t - 1)) \<le> i \<and> i < 2 ^ (bits t - 1)
      | UintV n \<Rightarrow> isUintKind (TypeKind t) \<and> n < 2 ^ bits t
      | StrV s \<Rightarrow> TypeKind t = KString)"

definition isUpper :: "char \<Rightarrow> bool" where
  "isUpper c \<longleftrightarrow> 65 \<le> (of_char c :: nat) \<and> (of_char c :: nat) \<le> 90"

definition isIdentChar :: "char \<Rightarrow> bool" where
  "isIdentChar c \<longleftrightarrow>
     (65 \<le> (of_char c :: nat) \<and> (of_char c :: nat) \<le> 90)
     \<or> (97 \<le> (of_char c :: nat) \<and> (of_char c :: nat) \<le> 122)
     \<or> (48 \<le> (of_char c :: nat) \<and> (of_char c :: nat) \<le> 57)
     \<or> c = CHR ''_''"

definition exportedName :: "string \<Rightarrow> bool" where
  "exportedName n = (case n of [] \<Rightarrow> False | c # cs \<Rightarrow> isUpper c \<and> list_all isIdentChar cs)"

definition symbolReturns :: "EnumType \<Rightarrow> Method \<Rightarrow> bool" where
  "symbolReturns t m =
     (if isValidEnumSymbolMethod t m
      then (case Invoke m of Panic \<Rightarrow> False | Return v \<Rightarrow> valueOfType t v)
      else True)"

definition wf_type :: "EnumType \<Rightarrow> bool" where
  "wf_type t \<longleftrightarrow>
     TypeSize t \<in> set (kindSizes (TypeKind t))
     \<and> list_all (\<lambda>m. exportedName (Name m)) (Methods t)
     \<and> distinct (map Name (Methods t))
     \<and> list_all (symbolReturns t) (Methods t)"

text \<open>The digits of \<open>u\<close> in base \<open>b\<close> as numbers, most significant first, and the number
  a list of digits stands for: what \<open>formatBits\<close> writes and what the digit loop of
  \<open>ParseUint\<close> reads.\<close>

function digitsOf :: "nat \<Rightarrow> nat \<Rightarrow> nat list" where
  "digitsOf u b = (if b < 2 \<or> u < b then [u] else digitsOf (u div b) b @ [u mod b])"
  by pat_completeness auto
termination
  by (relation "measure (\<lambda>(u, b). u)") auto

definition horner :: "nat \<Rightarrow> nat \<Rightarrow> nat list \<Rightarrow> nat" where
  "horner b n ds = foldl (\<lambda>n d. n * b + d) n ds"

text \<open>What \<open>StringUintFlags\<close> collects for a value other than 0: the symbols whose
  value is not 0 and has all its bits in \<open>intValue\<close> (\<open>matched\<close>), the union of their bits
  (\<open>bitsOfSyms\<close>), and their names put together with \<open>", "\<close> between them
  (\<open>joinNames\<close>).\<close>

definition isMatch :: "nat \<Rightarrow> string \<times> GoValue \<Rightarrow> bool" where
  "isMatch intValue p =
     (case snd p of UintV symVal \<Rightarrow> symVal \<noteq> 0 \<and> (intValue AND symVal) = symVal | _ \<Rightarrow> False)"

definition matched :: "nat \<Rightarrow> (string \<times> GoValue) list \<Rightarrow> (string \<times> GoValue) list" where
  "matched intValue syms = filter (isMatch intValue) syms"

definition uintOf :: "GoValue \<Rightarrow> nat" where
  "uintOf v = (case v of UintV u \<Rightarrow> u | _ \<Rightarrow> 0)"

definition bitsOfSyms :: "nat \<Rightarrow> (string \<times> GoValue) list \<Rightarrow> nat" where
  "bitsOfSyms bitsFound syms = foldl (\<lambda>b p. b OR uintOf (snd p)) bitsFound syms"

definition appendName :: "string \<Rightarrow> string \<Rightarrow> string" where
  "appendName symbolNames n =
     (if length symbolNames > 0 then symbolNames @ '', '' else symbolNames) @ n"

definition joinNames :: "string \<Rightarrow> string list \<Rightarrow> string" where
  "joinNames symbolNames ns = foldl appendName symbolNames ns"

text \<open>A piece of text that \<open>strings.Split\<close> on a comma and \<open>strings.TrimSpace\<close> leave as
  it is: not empty, no comma and no white space in it.\<close>

definition plain :: "string \<Rightarrow> bool" where
  "plain p \<longleftrightarrow> p \<noteq> [] \<and> list_all (\<lambda>c. c \<noteq> CHR '','' \<and> \<not> isSpace c) p"

text \<open>A piece of a flags text that \<open>ParseUintFlags\<close> accepts: after trimming it is the
  name of a method whose call returns an unsigned value, or it names no method and is a
  number.\<close>

definition pieceOK :: "PtrType \<Rightarrow> bool \<Rightarrow> string \<Rightarrow> bool" where
  "pieceOK tp ci f \<longleftrightarrow>
     (\<exists>u. Parse tp (strings_TrimSpace f) ci = Return (Some (UintV u), None))
     \<or> (findMethod (Elem tp) (strings_TrimSpace f) ci = None
        \<and> snd (strconv_ParseUint (strings_TrimSpace f) 0 (int (TypeSize (Elem tp)) * 8)) = None)"

section \<open>Example types\<close>

text \<open>The enum types of the package's tests, with the methods reflection lists for them
  (sorted by name). \<open>String\<close> and \<open>StringFast\<close> return a \<open>string\<close>, which does not convert
  to an integer type; \<open>IsSet\<close> takes a second argument.\<close>

definition symbolMethod :: "string \<Rightarrow> GoValue \<Rightarrow> Method" where
  "symbolMethod n v = \<lparr>Name = n, NumIn = 1, NumOut = 1, Out0IsEnum = True, Invoke = Return v\<rparr>"

definition otherMethod :: "string \<Rightarrow> nat \<Rightarrow> Method" where
  "otherMethod n numIn = \<lparr>Name = n, NumIn = numIn, NumOut = 1, Out0IsEnum = False, Invoke = Panic\<rparr>"

definition Color :: EnumType where
  "Color = \<lparr>TypeName = ''Color'', TypeString = ''enum_test.Color'', TypeKind = KInt16,
            TypeSize = 2,
            Methods = [symbolMethod ''Blue'' (IntV 3), symbolMethod ''Green'' (IntV 2),
                       symbolMethod ''None'' (IntV 0), symbolMethod ''Red'' (IntV 1),
                       otherMethod ''String'' 1, otherMethod ''StringFast'' 1]\<rparr>"

definition Access :: EnumType where
  "Access = \<lparr>TypeName = ''Access'', TypeString = ''enum_test.Access'', TypeKind = KUint32,
             TypeSize = 4,
             Methods = [symbolMethod ''Execute'' (UintV 4), otherMethod ''IsSet'' 2,
                        symbolMethod ''None'' (UintV 0), symbolMethod ''Read'' (UintV 1),
                        otherMethod ''String'' 1, symbolMethod ''Write'' (UintV 2)]\<rparr>"

text \<open>Two further types: flags without a zero-valued symbol and without other methods,
  and an enum with two symbols whose names differ in case only.\<close>

definition Perm :: EnumType where
  "Perm = \<lparr>TypeName = ''Perm'', TypeString = ''main.Perm'', TypeKind = KUint8, TypeSize = 1,
           Methods = [symbolMethod ''Read'' (UintV 1), symbolMethod ''Write'' (UintV 2)]\<rparr>"

definition Shade :: EnumType where
  "Shade = \<lparr>TypeName = ''Shade'', TypeString = ''main.Shade'', TypeKind = KInt32, TypeSize = 4,
            Methods = [symbolMethod ''RED'' (IntV 5), symbolMethod ''Red'' (IntV 1)]\<rparr>"

text \<open>A callback that stops at the second symbol it is given; its state counts the calls.\<close>

definition stopAtSecond :: "string \<Rightarrow> GoValue \<Rightarrow> nat \<Rightarrow> (bool \<times> nat) Outcome" where
  "stopAtSecond name v k = Return (k = 1, k + 1)"

section \<open>Facts about the example types\<close>

lemma wf_Access: "wf_type Access"
  by (simp add: wf_type_def Access_def symbolMethod_def otherMethod_def kindSizes_def
      exportedName_def isUpper_def isIdentChar_def symbolReturns_def
      isValidEnumSymbolMethod_def valueOfType_def isUintKind_def bits_def)

lemma symbols_Access:
  "symbols Access = [(''Execute'', UintV 4), (''None'', UintV 0), (''Read'', UintV 1), (''Write'', UintV 2)]"
  by (simp add: symbols_def symbolsOf_def Access_def symbolMethod_def otherMethod_def
      isValidEnumSymbolMethod_def)

lemma wf_Perm: "wf_type Perm"
  by (simp add: wf_type_def Perm_def symbolMethod_def kindSizes_def
      exportedName_def isUpper_def isIdentChar_def symbolReturns_def
      isValidEnumSymbolMethod_def valueOfType_def isUintKind_def bits_def)

lemma symbols_Perm: "symbols Perm = [(''Read'', UintV 1), (''Write'', UintV 2)]"
  by (simp add: symbols_def symbolsOf_def Perm_def symbolMethod_def isValidEnumSymbolMethod_def)

lemma wf_Color: "wf_type Color"
  by (simp add: wf_type_def Color_def symbolMethod_def otherMethod_def kindSizes_def
      exportedName_def isUpper_def isIdentChar_def symbolReturns_def
      isValidEnumSymbolMethod_def valueOfType_def isIntKind_def bits_def)

lemma symbols_Color:
  "symbols Color = [(''Blue'', IntV 3), (''Green'', IntV 2), (''None'', IntV 0), (''Red'', IntV 1)]"
  by (simp add: symbols_def symbolsOf_def Color_def symbolMethod_def otherMethod_def
      isValidEnumSymbolMethod_def)

lemma GetSymbols_Color_stopAtSecond:
  "GetSymbols Color (traced stopAtSecond) ([], 0) =
     Return ([(''Blue'', IntV 3, False), (''Green'', IntV 2, True)], 2)"
  by (simp add: GetSymbols_def Color_def symbolMethod_def otherMethod_def
      isValidEnumSymbolMethod_def traced_def stopAtSecond_def)

section \<open>Lookup and enumeration lemmas\<close>

lemma findMethod_None_iff:
  "findMethod t s ci = None \<longleftrightarrow>
     (if ci then \<forall>m\<in>set (Methods t). strings_ToLower (Name m) \<noteq> strings_ToLower s
      else \<forall>m\<in>set (Methods t). Name m \<noteq> s)"
  by (auto simp: findMethod_def MethodByName_def find_None_iff)

lemma Parse_not_found:
  "findMethod t s ci = None \<Longrightarrow>
   Parse (PtrTo t) s ci = Return (None, Some (CouldntParse s (TypeName t)))"
  by (simp add: Parse_def)

lemma exportedName_nonempty: "exportedName n \<Longrightarrow> n \<noteq> []"
  by (auto simp: exportedName_def)

lemma wf_type_names: "wf_type t \<Longrightarrow> m \<in> set (Methods t) \<Longrightarrow> exportedName (Name m)"
  by (auto simp: wf_type_def list_all_iff)

lemma findMethod_empty: "wf_type t \<Longrightarrow> findMethod t [] ci = None"
  by (auto simp: findMethod_None_iff strings_ToLower_def dest!: wf_type_names exportedName_nonempty)

lemma calledWith_simp: "calledWith (n, v, b) = (n, v)"
  by (simp add: calledWith_def)

lemma stopped_simp: "stopped (n, v, b) = b"
  by (simp add: stopped_def)

lemma GetSymbols_loop_traced:
  assumes "\<forall>m\<in>set ms. isValidEnumSymbolMethod t m \<longrightarrow> Invoke m \<noteq> Panic"
    and "\<forall>n v s. esi n v s \<noteq> Panic"
  shows "\<exists>ext s'. GetSymbols_loop t ms (traced esi) (log0, s) = Return (log0 @ ext, s')
           \<and> GetSymbols_loop t ms esi s = Return s'
           \<and> map calledWith ext = take (length ext) (symbolsOf t ms)
           \<and> (\<forall>e\<in>set (butlast ext). \<not> stopped e)
           \<and> ((ext \<noteq> [] \<and> stopped (last ext)) \<or> map calledWith ext = symbolsOf t ms)"
  using assms(1)
proof (induction ms arbitrary: log0 s)
  case Nil
  then show ?case by (simp add: symbolsOf_def)
next
  case (Cons m ms)
  show ?case
  proof (cases "isValidEnumSymbolMethod t m")
    case False
    with Cons.IH[of log0 s] Cons.prems show ?thesis
      by (simp add: symbolsOf_def)
  next
    case True
    with Cons.prems obtain v where v: "Invoke m = Return v"
      by (cases "Invoke m") auto
    from assms(2) obtain stop s1 where e: "esi (Name m) v s = Return (stop, s1)"
      by (cases "esi (Name m) v s") auto
    have syms: "symbolsOf t (m # ms) = (Name m, v) # symbolsOf t ms"
      using True v by (simp add: symbolsOf_def)
    have tstep: "traced esi (Name m) v (log0, s) = Return (stop, log0 @ [(Name m, v, stop)], s1)"
      using e by (simp add: traced_def)
    show ?thesis
    proof (cases stop)
      case True
      show ?thesis
        apply (rule exI[of _ "[(Name m, v, True)]"])
        apply (rule exI[of _ s1])
        using \<open>isValidEnumSymbolMethod t m\<close> v e True tstep
        by (simp add: syms calledWith_simp stopped_simp)
    next
      case False
      have prem: "\<forall>m\<in>set ms. isValidEnumSymbolMethod t m \<longrightarrow> Invoke m \<noteq> Panic"
        using Cons.prems by simp
      from Cons.IH[OF prem, of "log0 @ [(Name m, v, False)]" s1]
      obtain ext s' where
        r: "GetSymbols_loop t ms (traced esi) (log0 @ [(Name m, v, False)], s1)
              = Return ((log0 @ [(Name m, v, False)]) @ ext, s')"
        and r2: "GetSymbols_loop t ms esi s1 = Return s'"
        and p: "map calledWith ext = take (length ext) (symbolsOf t ms)"
        and b: "\<forall>e\<in>set (butlast ext). \<not> stopped e"
        and l: "(ext \<noteq> [] \<and> stopped (last ext)) \<or> map calledWith ext = symbolsOf t ms"
        by blast
      show ?thesis
        apply (rule exI[of _ "(Name m, v, False) # ext"])
        apply (rule exI[of _ s'])
        using \<open>isValidEnumSymbolMethod t m\<close> v e False r r2 p b l tstep
        by (auto simp: syms calledWith_simp stopped_simp)
    qed
  qed
qed

lemma traced_untraced:
  "GetSymbols_loop t ms (traced esi) (log0, s) = Return (log, s') \<Longrightarrow>
   GetSymbols_loop t ms esi s = Return s'"
proof (induction ms arbitrary: log0 s)
  case Nil
  then show ?case by simp
next
  case (Cons m ms)
  then show ?case
    by (auto simp: traced_def split: if_splits Outcome.splits prod.splits)
qed

lemma wf_symbol_uint:
  assumes "symbolReturns t m" "isUintKind (TypeKind t)" "isValidEnumSymbolMethod t m"
  shows "\<exists>u. Invoke m = Return (UintV u) \<and> u < 2 ^ bits t"
proof -
  from assms(1,3) obtain v where v: "Invoke m = Return v" "valueOfType t v"
    by (auto simp: symbolReturns_def split: Outcome.splits)
  with assms(2) show ?thesis
    by (cases v) (auto simp: valueOfType_def isUintKind_def isIntKind_def)
qed

lemma zero_flag_loop:
  assumes "\<forall>m\<in>set ms. symbolReturns t m" "isUintKind (TypeKind t)"
    and "find (\<lambda>p. snd p = UintV 0) (symbolsOf t ms) = Some (name, v)"
  shows "GetSymbols_loop t ms (traced (StringUintFlags_esi 0)) (log0, (0, [])) =
           Return (log0 @ map (\<lambda>p. (fst p, snd p, False))
                              (takeWhile (\<lambda>p. snd p \<noteq> UintV 0) (symbolsOf t ms))
                        @ [(name, UintV 0, True)], (0, name))"
  using assms(1,3)
proof (induction ms arbitrary: log0)
  case Nil
  then show ?case by (simp add: symbolsOf_def)
next
  case (Cons m ms)
  show ?case
  proof (cases "isValidEnumSymbolMethod t m")
    case False
    with Cons.IH[of log0] Cons.prems show ?thesis
      by (simp add: symbolsOf_def)
  next
    case True
    with Cons.prems assms(2) obtain u where u: "Invoke m = Return (UintV u)"
      using wf_symbol_uint[of t m] by auto
    have syms: "symbolsOf t (m # ms) = (Name m, UintV u) # symbolsOf t ms"
      using True u by (simp add: symbolsOf_def)
    show ?thesis
    proof (cases "u = 0")
      case True
      with Cons.prems(2) syms have "name = Name m" by simp
      have "traced (StringUintFlags_esi 0) (Name m) (UintV 0) (log0, (0, [])) =
              Return (True, log0 @ [(Name m, UintV 0, True)], (0, Name m))"
        by (simp add: traced_def StringUintFlags_esi_def Uint_def)
      with True \<open>isValidEnumSymbolMethod t m\<close> \<open>name = Name m\<close> u syms show ?thesis
        by simp
    next
      case False
      with Cons.prems(2) syms
      have f: "find (\<lambda>p. snd p = UintV 0) (symbolsOf t ms) = Some (name, v)" by simp
      from Cons.IH[of "log0 @ [(Name m, UintV u, False)]"] Cons.prems(1) f
      have "GetSymbols_loop t ms (traced (StringUintFlags_esi 0))
              (log0 @ [(Name m, UintV u, False)], (0, [])) =
            Return ((log0 @ [(Name m, UintV u, False)])
                    @ map (\<lambda>p. (fst p, snd p, False))
                          (takeWhile (\<lambda>p. snd p \<noteq> UintV 0) (symbolsOf t ms))
                    @ [(name, UintV 0, True)], (0, name))"
        by simp
      moreover have "traced (StringUintFlags_esi 0) (Name m) (UintV u) (log0, (0, [])) =
              Return (False, log0 @ [(Name m, UintV u, False)], (0, []))"
        using False by (simp add: traced_def StringUintFlags_esi_def Uint_def)
      ultimately show ?thesis
        using False \<open>isValidEnumSymbolMethod t m\<close> u syms by simp
    qed
  qed
qed

lemma wf_type_returns: "wf_type t \<Longrightarrow> \<forall>m\<in>set (Methods t). symbolReturns t m"
  by (simp add: wf_type_def list_all_iff)

lemma no_zero_flag_loop:
  assumes "\<forall>m\<in>set ms. symbolReturns t m" "isUintKind (TypeKind t)"
    and "UintV 0 \<notin> snd ` set (symbolsOf t ms)"
  shows "GetSymbols_loop t ms (StringUintFlags_esi 0) (0, []) = Return (0, [])"
  using assms(1,3)
proof (induction ms)
  case Nil
  then show ?case by simp
next
  case (Cons m ms)
  show ?case
  proof (cases "isValidEnumSymbolMethod t m")
    case False
    with Cons show ?thesis by (simp add: symbolsOf_def)
  next
    case True
    with Cons.prems assms(2) obtain u where u: "Invoke m = Return (UintV u)"
      using wf_symbol_uint[of t m] by auto
    have syms: "symbolsOf t (m # ms) = (Name m, UintV u) # symbolsOf t ms"
      using True u by (simp add: symbolsOf_def)
    with Cons.prems(2) have nz: "u \<noteq> 0" and rest: "UintV 0 \<notin> snd ` set (symbolsOf t ms)"
      by auto
    have "StringUintFlags_esi 0 (Name m) (UintV u) (0, []) = Return (False, 0, [])"
      using nz by (simp add: StringUintFlags_esi_def Uint_def)
    with True u Cons.IH Cons.prems(1) rest show ?thesis by simp
  qed
qed

section \<open>Enumeration of symbols\<close>

text \<open>C8: \<open>GetSymbols\<close> calls the callback at most once per symbol, in the order of the
  symbols. With symbol methods that return and a callback that returns, the calls recorded
  by the traced callback are a prefix of the symbols of the type, the traced and the plain
  run end in the same state, no call but the last one returned stop, and either the last
  call returned stop (nothing is visited after it) or every symbol was visited.\<close>

theorem GetSymbols_visits:
  assumes "\<forall>m\<in>set (Methods t). isValidEnumSymbolMethod t m \<longrightarrow> Invoke m \<noteq> Panic"
    and "\<forall>n v s. esi n v s \<noteq> Panic"
  shows "\<exists>log s'. GetSymbols t (traced esi) ([], s) = Return (log, s')
           \<and> GetSymbols t esi s = Return s'
           \<and> map calledWith log = take (length log) (symbols t)
           \<and> (\<forall>e\<in>set (butlast log). \<not> stopped e)
           \<and> ((log \<noteq> [] \<and> stopped (last log)) \<or> map calledWith log = symbols t)"
  using GetSymbols_loop_traced[OF assms, of "[]" s]
  by (simp add: GetSymbols_def symbols_def)

theorem GetSymbols_visits_witness:
  "GetSymbols Color (traced stopAtSecond) ([], 0) =
         Return ([(''Blue'', IntV 3, False), (''Green'', IntV 2, True)], 2)
   \<and> GetSymbols Color stopAtSecond 0 = Return 2
   \<and> take 2 (symbols Color) = [(''Blue'', IntV 3), (''Green'', IntV 2)]"
proof -
  have h1: "\<forall>m\<in>set (Methods Color). isValidEnumSymbolMethod Color m \<longrightarrow> Invoke m \<noteq> Panic"
    by (simp add: Color_def symbolMethod_def otherMethod_def isValidEnumSymbolMethod_def)
  have h2: "\<forall>n v s. stopAtSecond n v s \<noteq> Panic"
    by (simp add: stopAtSecond_def)
  from GetSymbols_visits[OF h1 h2, of 0] obtain log s' where
    "GetSymbols Color (traced stopAtSecond) ([], 0) = Return (log, s')"
    "GetSymbols Color stopAtSecond 0 = Return s'"
    "map calledWith log = take (length log) (symbols Color)"
    by blast
  then show ?thesis
    by (auto simp: GetSymbols_Color_stopAtSecond symbols_Color)
qed

section \<open>Formatting flags\<close>

text \<open>C4: \<open>StringUintFlags\<close> with the value 0 on a flag type that has a zero-valued
  symbol returns the name of the first such symbol alone, whatever the base: the
  enumeration visits the symbols before it, which add nothing, and stops at it; no other
  name and no numeric remainder is written.\<close>

theorem StringUintFlags_zero:
  assumes "wf_type t" "isUintKind (TypeKind t)"
    and "find (\<lambda>p. snd p = UintV 0) (symbols t) = Some (name, v)"
  shows "StringUintFlags 0 t base = Return name
         \<and> GetSymbols t (traced (StringUintFlags_esi 0)) ([], (0, [])) =
             Return (map (\<lambda>p. (fst p, snd p, False))
                         (takeWhile (\<lambda>p. snd p \<noteq> UintV 0) (symbols t))
                     @ [(name, UintV 0, True)], (0, name))"
proof -
  have tr: "GetSymbols_loop t (Methods t) (traced (StringUintFlags_esi 0)) ([], (0, [])) =
             Return ([] @ map (\<lambda>p. (fst p, snd p, False))
                         (takeWhile (\<lambda>p. snd p \<noteq> UintV 0) (symbolsOf t (Methods t)))
                     @ [(name, UintV 0, True)], (0, name))"
    using assms(3) wf_type_returns[OF assms(1)] assms(2)
    by (intro zero_flag_loop) (simp_all add: symbols_def)
  from traced_untraced[OF tr]
  have "GetSymbols t (StringUintFlags_esi 0) (0, []) = Return (0, name)"
    by (simp add: GetSymbols_def)
  then have "StringUintFlags 0 t base = Return name"
    by (simp add: StringUintFlags_def)
  with tr show ?thesis by (simp add: GetSymbols_def symbols_def)
qed

theorem StringUintFlags_zero_witness:
  "wf_type Access \<and> isUintKind (TypeKind Access)
   \<and> find (\<lambda>p. snd p = UintV 0) (symbols Access) = Some (''None'', UintV 0)
   \<and> StringUintFlags 0 Access 16 = Return ''None''
   \<and> GetSymbols Access (traced (StringUintFlags_esi 0)) ([], (0, [])) =
       Return ([(''Execute'', UintV 4, False), (''None'', UintV 0, True)], (0, ''None''))"
proof -
  have k: "isUintKind (TypeKind Access)" by (simp add: isUintKind_def Access_def)
  have f: "find (\<lambda>p. snd p = UintV 0) (symbols Access) = Some (''None'', UintV 0)"
    by (simp add: symbols_Access)
  from StringUintFlags_zero[OF wf_Access k f, of 16] show ?thesis
    using wf_Access k f by (simp add: symbols_Access)
qed

section \<open>Parsing flags\<close>

text \<open>C9: \<open>ParseUintFlags\<close> on the empty string returns 0 with an error, with either
  case rule and whether or not the type has a zero-valued symbol: the one empty piece is
  no method name and no number. The empty string is what \<open>StringUintFlags\<close> returns for 0
  on a type without a zero-valued symbol, so that text does not parse back.\<close>

theorem ParseUintFlags_empty_string:
  assumes "wf_type t" "isUintKind (TypeKind t)"
  shows "ParseUintFlags (PtrTo t) [] ci = Return (0, Some (CouldntParse [] (TypeName t)))
         \<and> (UintV 0 \<notin> snd ` set (symbols t) \<longrightarrow> StringUintFlags 0 t base = Return [])"
proof -
  have "ParseUintFlags (PtrTo t) [] ci = Return (0, Some (CouldntParse [] (TypeName t)))"
    using assms(1)
    by (simp add: ParseUintFlags_def strings_TrimSpace_def Parse_not_found findMethod_empty
        strconv_ParseUint_def)
  moreover have "StringUintFlags 0 t base = Return []" if "UintV 0 \<notin> snd ` set (symbols t)"
    using no_zero_flag_loop[of "Methods t" t] wf_type_returns[OF assms(1)] assms(2) that
    by (simp add: StringUintFlags_def GetSymbols_def symbols_def)
  ultimately show ?thesis by blast
qed

theorem ParseUintFlags_empty_string_witness:
  "wf_type Perm \<and> isUintKind (TypeKind Perm) \<and> UintV 0 \<notin> snd ` set (symbols Perm)
   \<and> ParseUintFlags (PtrTo Perm) [] True = Return (0, Some (CouldntParse [] ''Perm''))
   \<and> StringUintFlags 0 Perm 16 = Return []"
proof -
  have k: "isUintKind (TypeKind Perm)" by (simp add: isUintKind_def Perm_def)
  have z: "UintV 0 \<notin> snd ` set (symbols Perm)" by (simp add: symbols_Perm)
  have n: "TypeName Perm = ''Perm''" by (simp add: Perm_def)
  from ParseUintFlags_empty_string[OF wf_Perm k, of True 16] z n show ?thesis
    using wf_Perm k by simp
qed

section \<open>Numbers as text: \<open>formatBits\<close> against \<open>ParseUint\<close> and \<open>ParseInt\<close>\<close>

lemma digitVal_digits_all: "list_all (\<lambda>d. digitVal (digits ! d) = Some d) [0..<36]"
  by code_simp

lemma digitVal_digits: "d < 36 \<Longrightarrow> digitVal (digits ! d) = Some d"
  using digitVal_digits_all by (simp add: list_all_iff)

lemma digitVal_specials:
  "digitVal CHR ''_'' = None" "digitVal CHR ''-'' = None" "digitVal CHR ''+'' = None"
  "digitVal CHR '','' = None" "digitVal CHR '' '' = None"
  by (simp_all add: digitVal_def lower_def)

lemma lower_x: "lower CHR ''x'' = 120"
  by (simp add: lower_def)

lemma digit0: "digits ! 0 = CHR ''0''"
  by (simp add: digits_def)

lemma digit_eq_0: "d < 36 \<Longrightarrow> digits ! d = CHR ''0'' \<longleftrightarrow> d = 0"
  using digitVal_digits[of d] digitVal_digits[of 0] by (auto simp: digit0)

declare formatBits.simps [simp del] digitsOf.simps [simp del]

lemma formatBits_digitsOf: "formatBits u b acc = map ((!) digits) (digitsOf u b) @ acc"
proof (induction u b acc rule: formatBits.induct)
  case (1 u b acc)
  show ?case
  proof (cases "b < 2 \<or> u < b")
    case True
    then show ?thesis
      by (subst formatBits.simps, subst digitsOf.simps) simp
  next
    case False
    with "1.IH" show ?thesis
      by (subst formatBits.simps, subst digitsOf.simps) simp
  qed
qed

lemma digitsOf_nonempty: "digitsOf u b \<noteq> []"
  by (subst digitsOf.simps) simp

lemma digitsOf_less: "2 \<le> b \<Longrightarrow> d \<in> set (digitsOf u b) \<Longrightarrow> d < b"
proof (induction u b rule: digitsOf.induct)
  case (1 u b)
  show ?case
  proof (cases "u < b")
    case True
    with "1.prems" show ?thesis
      by (subst (asm) digitsOf.simps) simp
  next
    case False
    with "1.prems" have "d \<in> set (digitsOf (u div b) b) \<or> d = u mod b"
      by (subst (asm) digitsOf.simps) auto
    with "1.IH" "1.prems"(1) False show ?thesis
      by auto
  qed
qed

lemma horner_append: "horner b n (xs @ [d]) = horner b n xs * b + d"
  by (simp add: horner_def)

lemma horner_digitsOf: "2 \<le> b \<Longrightarrow> horner b 0 (digitsOf u b) = u"
proof (induction u b rule: digitsOf.induct)
  case (1 u b)
  show ?case
  proof (cases "u < b")
    case True
    then show ?thesis
      by (subst digitsOf.simps) (simp add: horner_def)
  next
    case False
    with "1.IH" "1.prems" have "horner b 0 (digitsOf (u div b) b) = u div b" by simp
    with False "1.prems" show ?thesis
      by (subst digitsOf.simps) (simp add: horner_append)
  qed
qed

lemma hd_digitsOf: "2 \<le> b \<Longrightarrow> 0 < u \<Longrightarrow> hd (digitsOf u b) \<noteq> 0"
proof (induction u b rule: digitsOf.induct)
  case (1 u b)
  show ?case
  proof (cases "u < b")
    case True
    with "1.prems" show ?thesis
      by (subst digitsOf.simps) simp
  next
    case False
    with "1.prems" have "0 < u div b"
      by (simp add: div_greater_zero_iff)
    with "1.IH" "1.prems" False have "hd (digitsOf (u div b) b) \<noteq> 0" by simp
    with False "1.prems" show ?thesis
      by (subst digitsOf.simps) (simp add: digitsOf_nonempty)
  qed
qed

lemma horner_Cons: "horner b n (d # ds) = horner b (n * b + d) ds"
  by (simp add: horner_def)

lemma horner_mono: "n \<le> horner b n ds" if "0 < b"
proof (induction ds arbitrary: n)
  case Nil
  show ?case by (simp add: horner_def)
next
  case (Cons d ds)
  have "n \<le> n * b + d" using that by (simp add: trans_le_add1)
  also have "\<dots> \<le> horner b (n * b + d) ds" by (rule Cons.IH)
  finally show ?case by (simp add: horner_Cons)
qed

lemma ParseUint_step_digit:
  assumes "2 \<le> b" "b \<le> 36" "d < b" "n * b + d \<le> maxVal" "maxVal < 2 ^ 64"
  shows "ParseUint_step base0 b ((2 ^ 64 - 1) div b + 1) maxVal (digits ! d) n = Next (n * b + d)"
proof -
  have dv: "digitVal (digits ! d) = Some d" using assms by (intro digitVal_digits) simp
  then have nu: "digits ! d \<noteq> CHR ''_''" using digitVal_specials(1) by auto
  have lt: "n * b + d < 2 ^ 64" using assms by simp
  then have "n * b \<le> 2 ^ 64 - 1" by simp
  then have "n \<le> (2 ^ 64 - 1) div b"
    using assms(1) by (simp add: less_eq_div_iff_mult_less_eq)
  then have c: "\<not> (2 ^ 64 - 1) div b + 1 \<le> n" by simp
  have lt': "n * b < 2 ^ 64" using lt by simp
  show ?thesis
    unfolding ParseUint_step_def
    using nu dv c assms(3,4) lt lt' by (simp add: Let_def)
qed

lemma ParseUint_loop_digits:
  assumes "2 \<le> b" "b \<le> 36" "maxVal < 2 ^ 64"
    and "\<forall>d\<in>set ds. d < b" "horner b n ds \<le> maxVal"
  shows "ParseUint_loop s0 base0 b ((2 ^ 64 - 1) div b + 1) maxVal (map ((!) digits) ds) False n
           = (horner b n ds, None)"
  using assms(4,5)
proof (induction ds arbitrary: n)
  case Nil
  then show ?case by (simp add: horner_def)
next
  case (Cons d ds)
  have "n * b + d \<le> horner b (n * b + d) ds"
    using assms(1) by (intro horner_mono) simp
  with Cons.prems(2) have le: "n * b + d \<le> maxVal" by (simp add: horner_Cons)
  have st: "ParseUint_step base0 b ((2 ^ 64 - 1) div b + 1) maxVal (digits ! d) n = Next (n * b + d)"
    using assms(1,2,3) Cons.prems(1) le by (intro ParseUint_step_digit) simp_all
  from Cons.IH[of "n * b + d"] Cons.prems
  have "ParseUint_loop s0 base0 b ((2 ^ 64 - 1) div b + 1) maxVal (map ((!) digits) ds) False (n * b + d)
           = (horner b (n * b + d) ds, None)"
    by (simp add: horner_Cons)
  with st show ?case by (simp add: horner_Cons)
qed

lemma basePrefix_decimal: "c \<noteq> CHR ''0'' \<Longrightarrow> basePrefix (c # cs) = (10, c # cs)"
  by (simp add: basePrefix_def)

lemma basePrefix_zero: "basePrefix ''0'' = (8, [])"
  by (simp add: basePrefix_def)

lemma basePrefix_hex: "basePrefix (CHR ''0'' # CHR ''x'' # c # cs) = (16, c # cs)"
  by (simp add: basePrefix_def lower_def)

lemma maxVal_bits:
  "bs \<in> {8, 16, 32, 64} \<Longrightarrow> ((2 ^ bs) mod 2 ^ 64 + 2 ^ 64 - 1) mod 2 ^ 64 = (2 ^ bs - 1 :: nat)"
  by auto

lemma pow_bits_le: "bs \<in> {8, 16, 32, 64} \<Longrightarrow> (2 :: nat) ^ bs \<le> 2 ^ 64"
  by auto

lemma strconv_ParseUint_digits:
  assumes bs: "bs \<in> {8, 16, 32, 64}" and b: "2 \<le> b" "b \<le> 36"
    and s0: "s0 \<noteq> []" and pre: "basePrefix s0 = (int b, map ((!) digits) ds)"
    and ds: "\<forall>d\<in>set ds. d < b" and le: "horner b 0 ds < 2 ^ bs"
  shows "strconv_ParseUint s0 0 (int bs) = (horner b 0 ds, None)"
proof -
  have bs0: "int bs \<noteq> 0" "\<not> int bs < 0" "\<not> int bs > 64" using bs by auto
  have mv: "((2 ^ bs) mod 2 ^ 64 + 2 ^ 64 - 1) mod 2 ^ 64 = (2 ^ bs - 1 :: nat)"
    by (rule maxVal_bits[OF bs])
  have lt: "(2 ^ bs - 1 :: nat) < 2 ^ 64"
    using pow_bits_le[OF bs] by (simp add: less_eq_iff_succ_less)
  have le': "horner b 0 ds \<le> 2 ^ bs - 1" using le by simp
  have loop: "ParseUint_loop s0 True b ((2 ^ 64 - 1) div b + 1) (2 ^ bs - 1)
                (map ((!) digits) ds) False 0 = (horner b 0 ds, None)"
    by (rule ParseUint_loop_digits[OF b lt ds le'])
  show ?thesis
    unfolding strconv_ParseUint_def Let_def
    using s0 bs0 by (simp only: pre mv loop if_True if_False fst_conv snd_conv nat_int simp_thms)
qed

lemma formatBits_zero: "2 \<le> b \<Longrightarrow> formatBits 0 b [] = ''0''"
  by (subst formatBits.simps) (simp add: digit0)

lemma formatBits_Cons:
  assumes "2 \<le> b" "b \<le> 36"
  shows "\<exists>d ds. digitsOf u b = d # ds \<and> formatBits u b [] = (digits ! d) # map ((!) digits) ds
           \<and> d < 36 \<and> (0 < u \<longrightarrow> d \<noteq> 0)"
proof -
  obtain d ds where c: "digitsOf u b = d # ds"
    using digitsOf_nonempty[of u b] by (cases "digitsOf u b") auto
  have "d < b" using digitsOf_less[OF assms(1), of d u] c by simp
  moreover have "0 < u \<longrightarrow> d \<noteq> 0" using hd_digitsOf[OF assms(1), of u] c by auto
  ultimately show ?thesis using c assms(2) by (simp add: formatBits_digitsOf)
qed

lemma strconv_ParseUint_decimal:
  assumes bs: "bs \<in> {8, 16, 32, 64}" and u: "u < 2 ^ bs"
  shows "strconv_ParseUint (formatBits u 10 []) 0 (int bs) = (u, None)"
proof (cases "u = 0")
  case True
  have "strconv_ParseUint ''0'' 0 (int bs) = (0, None)"
    using bs by (auto simp: strconv_ParseUint_def basePrefix_zero)
  with True show ?thesis by (simp add: formatBits_zero)
next
  case False
  obtain d ds where c: "digitsOf u 10 = d # ds"
    and f: "formatBits u 10 [] = (digits ! d) # map ((!) digits) ds"
    and d: "d < 36" "0 < u \<longrightarrow> d \<noteq> 0"
    using formatBits_Cons[of 10 u] by auto
  from d False have "digits ! d \<noteq> CHR ''0''" by (simp add: digit_eq_0)
  then have pre: "basePrefix (formatBits u 10 []) = (int 10, map ((!) digits) (digitsOf u 10))"
    by (simp add: f c basePrefix_decimal)
  have h: "horner 10 0 (digitsOf u 10) = u" by (rule horner_digitsOf) simp
  have "strconv_ParseUint (formatBits u 10 []) 0 (int bs) = (horner 10 0 (digitsOf u 10), None)"
    using bs pre u
    by (intro strconv_ParseUint_digits) (auto simp: f h dest: digitsOf_less[rotated])
  with h show ?thesis by simp
qed

lemma strconv_ParseUint_hex:
  assumes bs: "bs \<in> {8, 16, 32, 64}" and u: "u < 2 ^ bs"
  shows "strconv_ParseUint (''0x'' @ formatBits u 16 []) 0 (int bs) = (u, None)"
proof -
  obtain d ds where c: "digitsOf u 16 = d # ds"
    and f: "formatBits u 16 [] = (digits ! d) # map ((!) digits) ds"
    using formatBits_Cons[of 16 u] by auto
  have pre: "basePrefix (''0x'' @ formatBits u 16 []) = (int 16, map ((!) digits) (digitsOf u 16))"
    by (simp add: f c basePrefix_hex)
  have h: "horner 16 0 (digitsOf u 16) = u" by (rule horner_digitsOf) simp
  have "strconv_ParseUint (''0x'' @ formatBits u 16 []) 0 (int bs) = (horner 16 0 (digitsOf u 16), None)"
    using bs pre u
    by (intro strconv_ParseUint_digits) (auto simp: h dest: digitsOf_less[rotated])
  with h show ?thesis by simp
qed

lemma hd_formatBits_sign:
  assumes "2 \<le> b" "b \<le> 36"
  shows "hd (formatBits u b []) \<noteq> CHR ''-''" "hd (formatBits u b []) \<noteq> CHR ''+''"
    "formatBits u b [] \<noteq> []"
proof -
  obtain d ds where f: "formatBits u b [] = (digits ! d) # map ((!) digits) ds" and d: "d < 36"
    using formatBits_Cons[OF assms, of u] by auto
  from digitVal_digits[OF d] show "hd (formatBits u b []) \<noteq> CHR ''-''"
    "hd (formatBits u b []) \<noteq> CHR ''+''"
    using digitVal_specials by (auto simp: f)
  show "formatBits u b [] \<noteq> []" by (simp add: f)
qed

lemma strconv_ParseInt_pos:
  assumes "strconv_ParseUint s 0 (int bs) = (k, None)" "s \<noteq> []"
    "hd s \<noteq> CHR ''-''" "hd s \<noteq> CHR ''+''" "k < 2 ^ (bs - 1)" "0 < bs"
  shows "strconv_ParseInt s 0 (int bs) = (int k, None)"
proof -
  have "nat (int bs - 1) = bs - 1" using assms(6) by simp
  with assms show ?thesis
    by (simp add: strconv_ParseInt_def Let_def)
qed

lemma strconv_ParseInt_neg:
  assumes "strconv_ParseUint s 0 (int bs) = (k, None)" "k \<le> 2 ^ (bs - 1)" "0 < bs"
  shows "strconv_ParseInt (CHR ''-'' # s) 0 (int bs) = (- int k, None)"
proof -
  have "nat (int bs - 1) = bs - 1" using assms(3) by simp
  with assms show ?thesis
    by (simp add: strconv_ParseInt_def Let_def)
qed

lemma strconv_ParseInt_decimal:
  assumes bs: "bs \<in> {8, 16, 32, 64}" and i: "- (2 ^ (bs - 1)) \<le> i" "i < 2 ^ (bs - 1)"
  shows "strconv_ParseInt (Sprintf_d t (IntV i)) 0 (int bs) = (i, None)"
proof -
  have bs0: "0 < bs" using bs by auto
  have p: "(2 :: nat) ^ bs = 2 * 2 ^ (bs - 1)"
    using bs0 by (metis power_eq_if neq0_conv)
  define k where "k = nat \<bar>i\<bar>"
  show ?thesis
  proof (cases "i < 0")
    case False
    have "i < int (2 ^ (bs - 1))" using i(2) by simp
    with False have lt: "k < 2 ^ (bs - 1)" unfolding k_def by linarith
    then have lt2: "k < 2 ^ bs" using p by linarith
    have ik: "i = int k" using False by (simp add: k_def)
    have sp: "Sprintf_d t (IntV i) = formatBits k 10 []"
      using False by (simp add: Sprintf_d_def k_def)
    have pu: "strconv_ParseUint (formatBits k 10 []) 0 (int bs) = (k, None)"
      by (rule strconv_ParseUint_decimal[OF bs lt2])
    have "strconv_ParseInt (formatBits k 10 []) 0 (int bs) = (int k, None)"
      using pu hd_formatBits_sign[of 10 k] lt bs0 by (intro strconv_ParseInt_pos) simp_all
    with ik show ?thesis unfolding sp by simp
  next
    case True
    have "- int (2 ^ (bs - 1)) \<le> i" using i(1) by simp
    with True have le: "k \<le> 2 ^ (bs - 1)" unfolding k_def by linarith
    have "0 < (2 :: nat) ^ (bs - 1)" by simp
    with le have lt2: "k < 2 ^ bs" using p by linarith
    have ik: "i = - int k" using True by (simp add: k_def)
    have sp: "Sprintf_d t (IntV i) = CHR ''-'' # formatBits k 10 []"
      using True by (simp add: Sprintf_d_def k_def)
    have pu: "strconv_ParseUint (formatBits k 10 []) 0 (int bs) = (k, None)"
      by (rule strconv_ParseUint_decimal[OF bs lt2])
    have "strconv_ParseInt (CHR ''-'' # formatBits k 10 []) 0 (int bs) = (- int k, None)"
      using pu le bs0 by (intro strconv_ParseInt_neg) simp_all
    with ik show ?thesis unfolding sp by simp
  qed
qed

section \<open>Scalar formatting and parsing\<close>

lemma digits_below_letters_all: "list_all (\<lambda>d. (of_char (digits ! d) :: nat) < 65) [0..<10]"
  by code_simp

lemma digits_below_letters: "d < 10 \<Longrightarrow> (of_char (digits ! d) :: nat) < 65"
  using digits_below_letters_all by (simp add: list_all_iff)

lemma exportedName_hd: "exportedName n \<Longrightarrow> \<exists>c cs. n = c # cs \<and> isUpper c"
  by (cases n) (auto simp: exportedName_def)

lemma lower_byte_upper: "isUpper c \<Longrightarrow> (of_char (lower_byte c) :: nat) = of_char c + 32"
  by (simp add: isUpper_def lower_byte_def)

lemma lower_byte_below: "(of_char c :: nat) < 65 \<Longrightarrow> lower_byte c = c"
  by (simp add: lower_byte_def)

lemma findMethod_not_name:
  assumes "wf_type t" "s = c # cs" "(of_char c :: nat) < 65"
  shows "findMethod t s ci = None"
proof -
  have "Name m \<noteq> s \<and> strings_ToLower (Name m) \<noteq> strings_ToLower s"
    if "m \<in> set (Methods t)" for m
  proof -
    from wf_type_names[OF assms(1) that] obtain c' cs' where n: "Name m = c' # cs'" "isUpper c'"
      using exportedName_hd by blast
    from n(2) assms(3) have "c' \<noteq> c" by (auto simp: isUpper_def)
    moreover have "lower_byte c' \<noteq> lower_byte c"
    proof
      assume "lower_byte c' = lower_byte c"
      then have "(of_char (lower_byte c') :: nat) = of_char (lower_byte c)" by simp
      with n(2) assms(3) show False
        by (simp add: lower_byte_upper lower_byte_below isUpper_def)
    qed
    ultimately show ?thesis using n(1) assms(2) by (simp add: strings_ToLower_def)
  qed
  then show ?thesis by (auto simp: findMethod_None_iff)
qed

lemma String_sym_loop_unknown:
  assumes "\<forall>m\<in>set ms. symbolReturns t m" "v \<notin> snd ` set (symbolsOf t ms)"
  shows "GetSymbols_loop t ms (String_esi v) [] = Return []"
  using assms
proof (induction ms)
  case Nil
  then show ?case by simp
next
  case (Cons m ms)
  show ?case
  proof (cases "isValidEnumSymbolMethod t m")
    case False
    with Cons show ?thesis by (simp add: symbolsOf_def)
  next
    case True
    with Cons.prems(1) obtain w where w: "Invoke m = Return w"
      by (auto simp: symbolReturns_def split: Outcome.splits)
    have syms: "symbolsOf t (m # ms) = (Name m, w) # symbolsOf t ms"
      using True w by (simp add: symbolsOf_def)
    with Cons.prems(2) have ne: "w \<noteq> v" and rest: "v \<notin> snd ` set (symbolsOf t ms)"
      by auto
    have "String_esi v (Name m) w [] = Return (False, [])"
      using ne by (simp add: String_esi_def)
    with True w Cons.IH Cons.prems(1) rest show ?thesis by simp
  qed
qed

lemma StringInt_unknown:
  assumes "wf_type t" "v \<notin> snd ` set (symbols t)"
  shows "StringInt v t = Return (Sprintf_d t v)"
  using String_sym_loop_unknown[of "Methods t" t v] wf_type_returns[OF assms(1)] assms(2)
  by (simp add: StringInt_def String_sym_def GetSymbols_def symbols_def)

lemma wf_int_bits:
  assumes "wf_type t" "isIntKind (TypeKind t) \<or> isUintKind (TypeKind t)"
  shows "bits t \<in> {8, 16, 32, 64}" "int (TypeSize t) * 8 = int (bits t)"
proof -
  have "TypeSize t \<in> set (kindSizes (TypeKind t))"
    using assms(1) by (simp add: wf_type_def)
  with assms(2) have "TypeSize t \<in> {1, 2, 4, 8}"
    by (cases "TypeKind t") (auto simp: kindSizes_def isIntKind_def isUintKind_def)
  then show "bits t \<in> {8, 16, 32, 64}" by (auto simp: bits_def)
  show "int (TypeSize t) * 8 = int (bits t)" by (simp add: bits_def)
qed

lemma Sprintf_d_hd:
  assumes "v = IntV i \<or> v = UintV u"
  shows "\<exists>c cs. Sprintf_d t v = c # cs \<and> (of_char c :: nat) < 65"
proof -
  have fb: "\<exists>c cs. formatBits k 10 [] = c # cs \<and> (of_char c :: nat) < 65" for k
  proof -
    obtain d ds where c: "digitsOf k 10 = d # ds"
      and f: "formatBits k 10 [] = (digits ! d) # map ((!) digits) ds"
      using formatBits_Cons[of 10 k] by auto
    have "d < 10" using digitsOf_less[of 10 d k] c by simp
    then show ?thesis using f digits_below_letters by simp
  qed
  from assms show ?thesis
  proof
    assume v: "v = IntV i"
    from fb[of "nat \<bar>i\<bar>"] show ?thesis
      by (cases "i < 0") (auto simp: v Sprintf_d_def)
  next
    assume v: "v = UintV u"
    from fb[of u] show ?thesis by (simp add: v Sprintf_d_def)
  qed
qed

text \<open>C2: for an enum of an integer kind and a value of the type that no symbol has,
  \<open>StringInt\<close> returns the decimal text of the value, and \<open>ParseInt\<close> without \<open>strict\<close>
  returns the value again from that text, with no error, under either case rule.\<close>

theorem scalar_roundtrip_unknown:
  assumes "wf_type t" "isIntKind (TypeKind t) \<or> isUintKind (TypeKind t)"
    and "valueOfType t v" "v \<notin> snd ` set (symbols t)"
  shows "StringInt v t = Return (Sprintf_d t v)
         \<and> ParseInt (PtrTo t) (Sprintf_d t v) ci False = Return (Some v, None)"
proof -
  note bs = wf_int_bits[OF assms(1,2)]
  have fmt: "StringInt v t = Return (Sprintf_d t v)"
    by (rule StringInt_unknown[OF assms(1,4)])
  have num: "(\<exists>i. v = IntV i) \<or> (\<exists>u. v = UintV u)"
    using assms(2,3) by (cases v) (auto simp: valueOfType_def isIntKind_def isUintKind_def)
  then obtain c cs where hd: "Sprintf_d t v = c # cs" "(of_char c :: nat) < 65"
    using Sprintf_d_hd[of v _ _ t] by blast
  have nf: "findMethod t (Sprintf_d t v) ci = None"
    by (rule findMethod_not_name[OF assms(1) hd])
  have p: "Parse (PtrTo t) (Sprintf_d t v) ci =
             Return (None, Some (CouldntParse (Sprintf_d t v) (TypeName t)))"
    by (rule Parse_not_found[OF nf])
  from num show ?thesis
  proof (elim disjE exE)
    fix i assume v: "v = IntV i"
    with assms(3) have k: "isIntKind (TypeKind t)"
      and r: "- (2 ^ (bits t - 1)) \<le> i" "i < 2 ^ (bits t - 1)"
      by (auto simp: valueOfType_def)
    have pi: "strconv_ParseInt (Sprintf_d t (IntV i)) 0 (int (bits t)) = (i, None)"
      by (rule strconv_ParseInt_decimal[OF bs(1) r])
    from k have k': "TypeKind t = KInt \<or> TypeKind t = KInt8 \<or> TypeKind t = KInt16
        \<or> TypeKind t = KInt32 \<or> TypeKind t = KInt64"
      by (simp add: isIntKind_def)
    show ?thesis
      using fmt p pi k k' unfolding v
      by (simp add: ParseInt_def bs(2) SetInt_def Let_def)
  next
    fix u assume v: "v = UintV u"
    with assms(3) have k: "isUintKind (TypeKind t)" and r: "u < 2 ^ bits t"
      by (auto simp: valueOfType_def)
    have pu: "strconv_ParseUint (Sprintf_d t (UintV u)) 0 (int (bits t)) = (u, None)"
      using strconv_ParseUint_decimal[OF bs(1) r] by (simp add: Sprintf_d_def)
    from k have k': "\<not> (TypeKind t = KInt \<or> TypeKind t = KInt8 \<or> TypeKind t = KInt16
        \<or> TypeKind t = KInt32 \<or> TypeKind t = KInt64)"
      by (auto simp: isUintKind_def)
    show ?thesis
      using fmt p pu k k' unfolding v
      by (simp add: ParseInt_def bs(2) SetUint_def Let_def)
  qed
qed

lemma formatBits_123: "formatBits 123 10 [] = ''123''"
  by code_simp

theorem scalar_roundtrip_unknown_witness:
  "StringInt (IntV 123) Color = Return ''123''
   \<and> ParseInt (PtrTo Color) ''123'' True False = Return (Some (IntV 123), None)"
proof -
  have k: "isIntKind (TypeKind Color) \<or> isUintKind (TypeKind Color)"
    by (simp add: isIntKind_def Color_def)
  have v: "valueOfType Color (IntV 123)"
    by (simp add: valueOfType_def isIntKind_def Color_def bits_def)
  have n: "IntV 123 \<notin> snd ` set (symbols Color)"
    by (simp add: symbols_Color)
  have s: "Sprintf_d Color (IntV 123) = ''123''"
    by (simp add: Sprintf_d_def formatBits_123)
  from scalar_roundtrip_unknown[OF wf_Color k v n, of True] show ?thesis
    by (simp add: s)
qed

section \<open>Flags: what the formatter writes and what the parser reads\<close>

lemma StringUintFlags_esi_nonzero:
  assumes "v \<noteq> 0"
  shows "StringUintFlags_esi v n (UintV u) (bf, sn) =
           (if isMatch v (n, UintV u) then Return (False, bf OR u, appendName sn n)
            else Return (False, bf, sn))"
  using assms by (simp add: StringUintFlags_esi_def Uint_def isMatch_def appendName_def)

lemma flags_loop_nonzero:
  assumes "\<forall>m\<in>set ms. symbolReturns t m" "isUintKind (TypeKind t)" "v \<noteq> 0"
  shows "GetSymbols_loop t ms (StringUintFlags_esi v) (bf, sn) =
           Return (bitsOfSyms bf (matched v (symbolsOf t ms)),
                   joinNames sn (map fst (matched v (symbolsOf t ms))))"
  using assms(1)
proof (induction ms arbitrary: bf sn)
  case Nil
  then show ?case by (simp add: symbolsOf_def matched_def bitsOfSyms_def joinNames_def)
next
  case (Cons m ms)
  show ?case
  proof (cases "isValidEnumSymbolMethod t m")
    case False
    with Cons show ?thesis by (simp add: symbolsOf_def)
  next
    case True
    with Cons.prems assms(2) obtain u where u: "Invoke m = Return (UintV u)"
      using wf_symbol_uint[of t m] by auto
    have syms: "symbolsOf t (m # ms) = (Name m, UintV u) # symbolsOf t ms"
      using True u by (simp add: symbolsOf_def)
    note st = StringUintFlags_esi_nonzero[OF assms(3), of "Name m" u bf sn]
    show ?thesis
    proof (cases "isMatch v (Name m, UintV u)")
      case True
      with \<open>isValidEnumSymbolMethod t m\<close> u st Cons.IH[of "bf OR u" "appendName sn (Name m)"] Cons.prems
      show ?thesis
        by (simp add: syms matched_def bitsOfSyms_def joinNames_def uintOf_def)
    next
      case False
      with \<open>isValidEnumSymbolMethod t m\<close> u st Cons.IH[of bf sn] Cons.prems
      show ?thesis
        by (simp add: syms matched_def)
    qed
  qed
qed

lemma StringUintFlags_nonzero:
  assumes "wf_type t" "isUintKind (TypeKind t)" "v \<noteq> 0" "2 \<le> base" "base \<le> 36"
  shows "StringUintFlags v t base =
           Return (joinNames [] (map fst (matched v (symbols t))
                     @ (if bitsOfSyms 0 (matched v (symbols t)) \<noteq> v
                        then [''0x'' @ formatBits (v XOR bitsOfSyms 0 (matched v (symbols t))) (nat base) []]
                        else [])))"
proof -
  have g: "GetSymbols t (StringUintFlags_esi v) (0, []) =
             Return (bitsOfSyms 0 (matched v (symbols t)),
                     joinNames [] (map fst (matched v (symbols t))))"
    using flags_loop_nonzero[OF wf_type_returns[OF assms(1)] assms(2,3), of 0 "[]"]
    by (simp add: GetSymbols_def symbols_def)
  show ?thesis
    using assms(4,5)
    by (simp add: StringUintFlags_def g strconv_FormatUint_def joinNames_def appendName_def)
qed

lemma joinNames_nonempty:
  "sn \<noteq> [] \<Longrightarrow> joinNames sn ps = sn @ concat (map (\<lambda>q. '', '' @ q) ps)"
proof (induction ps arbitrary: sn)
  case Nil
  then show ?case by (simp add: joinNames_def)
next
  case (Cons p ps)
  have "joinNames sn (p # ps) = joinNames (sn @ '', '' @ p) ps"
    using Cons.prems by (simp add: joinNames_def appendName_def)
  also have "\<dots> = (sn @ '', '' @ p) @ concat (map (\<lambda>q. '', '' @ q) ps)"
    by (rule Cons.IH) simp
  finally show ?case by simp
qed

lemma joinNames_Cons:
  "p \<noteq> [] \<Longrightarrow> joinNames [] (p # ps) = p @ concat (map (\<lambda>q. '', '' @ q) ps)"
  using joinNames_nonempty[of p ps] by (simp add: joinNames_def appendName_def)

lemma strings_Split_no_sep: "sep \<notin> set p \<Longrightarrow> strings_Split p sep = [p]"
  by (induction p) auto

lemma strings_Split_append:
  "sep \<notin> set p \<Longrightarrow> strings_Split (p @ sep # rest) sep = p # strings_Split rest sep"
  by (induction p) auto

lemma strings_Split_joined:
  assumes "CHR '','' \<notin> set p" "\<forall>q\<in>set qs. CHR '','' \<notin> set q"
  shows "strings_Split (p @ concat (map (\<lambda>q. '', '' @ q) qs)) CHR '','' =
           p # map (\<lambda>q. CHR '' '' # q) qs"
  using assms
proof (induction qs arbitrary: p)
  case Nil
  then show ?case by (simp add: strings_Split_no_sep)
next
  case (Cons q qs)
  have c: "CHR '','' \<notin> set (CHR '' '' # q)" using Cons.prems(2) by simp
  have "strings_Split (p @ concat (map (\<lambda>q. '', '' @ q) (q # qs))) CHR '','' =
        p # strings_Split ((CHR '' '' # q) @ concat (map (\<lambda>q. '', '' @ q) qs)) CHR '',''"
    using strings_Split_append[OF Cons.prems(1), of "(CHR '' '' # q) @ concat (map (\<lambda>q. '', '' @ q) qs)"]
    by simp
  also have "strings_Split ((CHR '' '' # q) @ concat (map (\<lambda>q. '', '' @ q) qs)) CHR '','' =
        (CHR '' '' # q) # map (\<lambda>q. CHR '' '' # q) qs"
    using Cons.prems(2) by (intro Cons.IH[OF c]) simp
  finally show ?case
    using Cons.IH[OF c] Cons.prems(2) by simp
qed

lemma plainD: "plain p \<Longrightarrow> p \<noteq> [] \<and> CHR '','' \<notin> set p \<and> (\<forall>c\<in>set p. \<not> isSpace c)"
  by (auto simp: plain_def list_all_iff)

lemma dropWhile_hd: "xs \<noteq> [] \<Longrightarrow> \<not> P (hd xs) \<Longrightarrow> dropWhile P xs = xs"
  by (cases xs) auto

lemma plain_dropWhile:
  assumes "plain p"
  shows "dropWhile isSpace p = p" "dropWhile isSpace (rev p) = rev p"
proof -
  from assms have ne: "p \<noteq> []" and ns: "\<forall>c\<in>set p. \<not> isSpace c" using plainD by auto
  from ne ns have "\<not> isSpace (hd p)" by simp
  with ne show "dropWhile isSpace p = p" by (rule dropWhile_hd)
  from ne ns have "\<not> isSpace (last p)" by simp
  then have "\<not> isSpace (hd (rev p))" using ne by (simp add: hd_rev)
  moreover have "rev p \<noteq> []" using ne by simp
  ultimately show "dropWhile isSpace (rev p) = rev p" by (intro dropWhile_hd)
qed

lemma strings_TrimSpace_plain: "plain p \<Longrightarrow> strings_TrimSpace p = p"
  by (simp add: strings_TrimSpace_def plain_dropWhile)

lemma strings_TrimSpace_space_plain: "plain p \<Longrightarrow> strings_TrimSpace (CHR '' '' # p) = p"
proof -
  assume a: "plain p"
  have sp: "isSpace CHR '' ''" by (simp add: isSpace_def)
  show ?thesis using sp by (simp add: strings_TrimSpace_def plain_dropWhile[OF a])
qed

lemma symbolsOf_mem:
  "(n, w) \<in> set (symbolsOf t ms) \<Longrightarrow> \<exists>m\<in>set ms. Name m = n \<and> Invoke m = Return w"
  by (auto simp: symbolsOf_def split: Outcome.splits)

lemma find_distinct_key:
  "distinct (map f xs) \<Longrightarrow> m \<in> set xs \<Longrightarrow> find (\<lambda>x. f x = f m) xs = Some m"
proof (induction xs)
  case Nil
  then show ?case by simp
next
  case (Cons x xs)
  then show ?case by (cases "x = m") (auto simp: image_iff)
qed

lemma Parse_symbol:
  assumes "wf_type t" "ci \<longrightarrow> distinct (map (\<lambda>m. strings_ToLower (Name m)) (Methods t))"
    and "(n, w) \<in> set (symbols t)"
  shows "Parse (PtrTo t) n ci = Return (Some w, None)"
proof -
  from assms(3) obtain m where m: "m \<in> set (Methods t)" "Name m = n" "Invoke m = Return w"
    using symbolsOf_mem[of n w t "Methods t"] by (auto simp: symbols_def)
  have d: "distinct (map Name (Methods t))" using assms(1) by (simp add: wf_type_def)
  have "findMethod t n ci = Some m"
  proof (cases ci)
    case False
    with find_distinct_key[OF d m(1)] m(2) show ?thesis
      by (simp add: findMethod_def MethodByName_def)
  next
    case True
    with assms(2) have "distinct (map (\<lambda>m. strings_ToLower (Name m)) (Methods t))" by simp
    from find_distinct_key[OF this m(1)] True m(2) show ?thesis
      by (simp add: findMethod_def)
  qed
  with m(3) show ?thesis by (simp add: Parse_def)
qed

lemma isIdentChar_plain: "isIdentChar c \<Longrightarrow> c \<noteq> CHR '','' \<and> \<not> isSpace c"
  by (auto simp: isIdentChar_def isSpace_def)

lemma isUpper_plain: "isUpper c \<Longrightarrow> c \<noteq> CHR '','' \<and> \<not> isSpace c"
  by (auto simp: isUpper_def isSpace_def)

lemma exportedName_plain: "exportedName n \<Longrightarrow> plain n"
  by (cases n) (auto simp: exportedName_def plain_def list_all_iff isIdentChar_plain isUpper_plain)

lemma isSpace_digitVal: "isSpace c \<Longrightarrow> digitVal c = None"
  by (auto simp: isSpace_def digitVal_def lower_def)

lemma digit_plain: "d < 36 \<Longrightarrow> digits ! d \<noteq> CHR '','' \<and> \<not> isSpace (digits ! d)"
  using digitVal_digits[of d] digitVal_specials(4) isSpace_digitVal[of "digits ! d"] by auto

lemma formatBits_plain:
  assumes "2 \<le> b" "b \<le> 36"
  shows "plain (''0x'' @ formatBits u b [])"
proof -
  have "c \<noteq> CHR '','' \<and> \<not> isSpace c" if "c \<in> set (formatBits u b [])" for c
  proof -
    from that obtain d where "d \<in> set (digitsOf u b)" "c = digits ! d"
      by (auto simp: formatBits_digitsOf)
    with digitsOf_less[OF assms(1), of d u] assms(2) digit_plain[of d] show ?thesis by simp
  qed
  then show ?thesis by (auto simp: plain_def list_all_iff isSpace_def)
qed

lemma split_joinNames:
  assumes "P \<noteq> []" "\<forall>p\<in>set P. plain p"
  shows "list_all2 (\<lambda>r p. strings_TrimSpace r = p) (strings_Split (joinNames [] P) CHR '','') P"
proof -
  from assms(1) obtain p ps where P: "P = p # ps" by (cases P) auto
  with assms(2) have pl: "plain p" "\<forall>q\<in>set ps. plain q" by auto
  then have ne: "p \<noteq> []" and nc: "CHR '','' \<notin> set p" "\<forall>q\<in>set ps. CHR '','' \<notin> set q"
    using plainD by auto
  have sp: "strings_Split (joinNames [] P) CHR '','' = p # map (\<lambda>q. CHR '' '' # q) ps"
    unfolding P joinNames_Cons[OF ne] by (rule strings_Split_joined[OF nc])
  have "list_all2 (\<lambda>r p. strings_TrimSpace r = p) (map (\<lambda>q. CHR '' '' # q) ps) ps"
    using pl(2) by (simp add: list_all2_map1 list.rel_refl_strong strings_TrimSpace_space_plain)
  then show ?thesis
    unfolding sp by (simp add: P strings_TrimSpace_plain[OF pl(1)])
qed

lemma ParseUintFlags_loop_pieces:
  assumes "list_all2 (\<lambda>r p. strings_TrimSpace r = p) raws (map fst M @ rem)"
    and "\<forall>p\<in>set M. Parse tp (fst p) ci = Return (Some (snd p), None) \<and> (\<exists>u. snd p = UintV u)"
    and "rem = [] \<or> (\<exists>x. rem = [x] \<and> (\<exists>e. Parse tp x ci = Return (None, Some e))
           \<and> strconv_ParseUint x 0 (int (TypeSize (Elem tp)) * 8) = (r, None))"
  shows "ParseUintFlags_loop tp ci raws val =
           Return (if rem = [] then bitsOfSyms val M else bitsOfSyms val M OR r, None)"
  using assms(1,2)
proof (induction M arbitrary: raws val)
  case Nil
  from assms(3) show ?case
  proof
    assume "rem = []"
    with Nil show ?thesis by (simp add: bitsOfSyms_def)
  next
    assume "\<exists>x. rem = [x] \<and> (\<exists>e. Parse tp x ci = Return (None, Some e))
           \<and> strconv_ParseUint x 0 (int (TypeSize (Elem tp)) * 8) = (r, None)"
    then obtain x e where x: "rem = [x]" "Parse tp x ci = Return (None, Some e)"
      "strconv_ParseUint x 0 (int (TypeSize (Elem tp)) * 8) = (r, None)" by blast
    with Nil.prems(1) obtain rr where rr: "raws = [rr]" "strings_TrimSpace rr = x"
      by (auto simp: list_all2_Cons2)
    with x show ?thesis by (simp add: bitsOfSyms_def)
  qed
next
  case (Cons p M)
  from Cons.prems(1) obtain rr raws' where rr: "raws = rr # raws'" "strings_TrimSpace rr = fst p"
    "list_all2 (\<lambda>r p. strings_TrimSpace r = p) raws' (map fst M @ rem)"
    by (auto simp: list_all2_Cons2)
  from Cons.prems(2) obtain u where u: "Parse tp (fst p) ci = Return (Some (snd p), None)"
    "snd p = UintV u" by auto
  have "ParseUintFlags_loop tp ci raws val = ParseUintFlags_loop tp ci raws' (val OR u)"
    using rr(1,2) u by (simp add: Uint_def)
  also have "\<dots> = Return (if rem = [] then bitsOfSyms (val OR u) M else bitsOfSyms (val OR u) M OR r, None)"
    using Cons.prems(2) by (intro Cons.IH[OF rr(3)]) simp
  finally show ?case using u(2) by (simp add: bitsOfSyms_def uintOf_def)
qed

lemma and_sub_bit:
  fixes v bf :: nat
  assumes "v AND bf = bf"
  shows "bit bf n \<Longrightarrow> bit v n"
  using assms by (metis bit_and_iff)

lemma and_or_absorb:
  fixes v bf u :: nat
  assumes "v AND bf = bf" "v AND u = u"
  shows "v AND (bf OR u) = bf OR u"
  by (rule bit_eqI) (auto simp: bit_and_iff bit_or_iff and_sub_bit[OF assms(1)] and_sub_bit[OF assms(2)])

lemma or_xor_sub:
  fixes v bf :: nat
  assumes "v AND bf = bf"
  shows "bf OR (v XOR bf) = v"
  by (rule bit_eqI) (auto simp: bit_or_iff bit_xor_iff and_sub_bit[OF assms])

lemma xor_less:
  fixes v bf :: nat
  assumes "v < 2 ^ k" "bf < 2 ^ k"
  shows "v XOR bf < 2 ^ k"
proof -
  have "take_bit k (v XOR bf) = v XOR bf"
    using assms by (simp add: take_bit_xor take_bit_nat_eq_self)
  then show ?thesis by (rule take_bit_nat_eq_self_iff[THEN iffD1])
qed

lemma bitsOfSyms_sub:
  assumes "v AND bf = bf" "\<forall>p\<in>set M. isMatch v p"
  shows "v AND bitsOfSyms bf M = bitsOfSyms bf M"
  using assms
proof (induction M arbitrary: bf)
  case Nil
  then show ?case by (simp add: bitsOfSyms_def)
next
  case (Cons p M)
  from Cons.prems(2) obtain u where u: "snd p = UintV u" "v AND u = u"
    by (cases "snd p") (auto simp: isMatch_def)
  have "v AND (bf OR u) = bf OR u" by (rule and_or_absorb[OF Cons.prems(1) u(2)])
  from Cons.IH[OF this] Cons.prems(2) u(1) show ?case
    by (simp add: bitsOfSyms_def uintOf_def)
qed

lemma and_less: "(v :: nat) AND b = b \<Longrightarrow> v < 2 ^ k \<Longrightarrow> b < 2 ^ k"
proof -
  assume a: "v AND b = b" "v < 2 ^ k"
  have "take_bit k v = v" using a(2) by (simp add: take_bit_nat_eq_self)
  then have vk: "bit v n \<Longrightarrow> n < k" for n by (metis bit_take_bit_iff)
  have "take_bit k b = b"
    by (rule bit_eqI) (auto simp: bit_take_bit_iff dest: and_sub_bit[OF a(1)] vk)
  then show ?thesis by (rule take_bit_nat_eq_self_iff[THEN iffD1])
qed

lemma find_SomeE: "find P xs = Some x \<Longrightarrow> P x \<and> x \<in> set xs"
  by (induction xs) (auto split: if_splits)

lemma matched_props:
  "p \<in> set (matched v syms) \<Longrightarrow> p \<in> set syms \<and> isMatch v p \<and> (\<exists>u. snd p = UintV u)"
  by (cases "snd p") (auto simp: matched_def isMatch_def)

lemma symbol_name_plain:
  assumes "wf_type t" "(n, w) \<in> set (symbols t)"
  shows "plain n"
proof -
  from assms(2) obtain m where "m \<in> set (Methods t)" "Name m = n"
    using symbolsOf_mem[of n w t "Methods t"] by (auto simp: symbols_def)
  with wf_type_names[OF assms(1)] show ?thesis by (auto intro: exportedName_plain)
qed

lemma flags_roundtrip_nonzero:
  assumes wf: "wf_type t" and k: "isUintKind (TypeKind t)" and v: "v < 2 ^ bits t" "v \<noteq> 0"
    and ci: "ci \<longrightarrow> distinct (map (\<lambda>m. strings_ToLower (Name m)) (Methods t))"
  shows "\<exists>s. StringUintFlags v t 16 = Return s \<and> ParseUintFlags (PtrTo t) s ci = Return (v, None)"
proof -
  define M where "M = matched v (symbols t)"
  define bf where "bf = bitsOfSyms 0 M"
  define x where "x = ''0x'' @ formatBits (v XOR bf) 16 []"
  define rem where "rem = (if bf \<noteq> v then [x] else [])"
  define s where "s = joinNames [] (map fst M @ rem)"
  note bs = wf_int_bits[OF wf disjI2[OF k]]
  have fmt: "StringUintFlags v t 16 = Return s"
    using StringUintFlags_nonzero[OF wf k v(2), of 16]
    by (simp add: s_def rem_def x_def bf_def M_def)
  have Mp: "\<forall>p\<in>set M. p \<in> set (symbols t) \<and> isMatch v p \<and> (\<exists>u. snd p = UintV u)"
    using matched_props by (auto simp: M_def)
  have sub: "v AND bf = bf"
    unfolding bf_def using Mp by (intro bitsOfSyms_sub) simp_all
  have bfv: "bf OR (v XOR bf) = v" by (rule or_xor_sub[OF sub])
  have bflt: "bf < 2 ^ bits t" by (rule and_less[OF sub v(1)])
  have rlt: "v XOR bf < 2 ^ bits t" by (rule xor_less[OF v(1) bflt])
  have xplain: "plain x" unfolding x_def by (rule formatBits_plain) simp_all
  have ne: "map fst M @ rem \<noteq> []"
  proof (cases "M = []")
    case True
    then have "bf = 0" by (simp add: bf_def bitsOfSyms_def)
    with v(2) show ?thesis by (simp add: rem_def)
  next
    case False
    then show ?thesis by simp
  qed
  have pl: "\<forall>p\<in>set (map fst M @ rem). plain p"
  proof
    fix p assume "p \<in> set (map fst M @ rem)"
    then consider (name) q where "q \<in> set M" "p = fst q" | (rest) "p = x"
      by (auto simp: rem_def split: if_splits)
    then show "plain p"
    proof cases
      case name
      with Mp have "(p, snd q) \<in> set (symbols t)" by simp
      then show ?thesis by (rule symbol_name_plain[OF wf])
    next
      case rest
      with xplain show ?thesis by simp
    qed
  qed
  have raws: "list_all2 (\<lambda>r p. strings_TrimSpace r = p)
                (strings_Split s CHR '','') (map fst M @ rem)"
    unfolding s_def by (rule split_joinNames[OF ne pl])
  have parse: "\<forall>p\<in>set M. Parse (PtrTo t) (fst p) ci = Return (Some (snd p), None)
                 \<and> (\<exists>u. snd p = UintV u)"
  proof
    fix p assume "p \<in> set M"
    with Mp have "(fst p, snd p) \<in> set (symbols t)" "\<exists>u. snd p = UintV u" by simp_all
    with Parse_symbol[OF wf ci] show "Parse (PtrTo t) (fst p) ci = Return (Some (snd p), None)
                 \<and> (\<exists>u. snd p = UintV u)" by blast
  qed
  have xnf: "Parse (PtrTo t) x ci = Return (None, Some (CouldntParse x (TypeName t)))"
    by (rule Parse_not_found, rule findMethod_not_name[OF wf, of x "CHR ''0''"])
       (simp_all add: x_def)
  have xnum: "strconv_ParseUint x 0 (int (TypeSize (Elem (PtrTo t))) * 8) = (v XOR bf, None)"
    unfolding x_def using strconv_ParseUint_hex[OF bs(1) rlt] by (simp add: bs(2))
  have remc: "rem = [] \<or> (\<exists>y. rem = [y] \<and> (\<exists>e. Parse (PtrTo t) y ci = Return (None, Some e))
           \<and> strconv_ParseUint y 0 (int (TypeSize (Elem (PtrTo t))) * 8) = (v XOR bf, None))"
    using xnf xnum by (simp add: rem_def)
  have "ParseUintFlags (PtrTo t) s ci =
          Return (if rem = [] then bitsOfSyms 0 M else bitsOfSyms 0 M OR (v XOR bf), None)"
    unfolding ParseUintFlags_def by (rule ParseUintFlags_loop_pieces[OF raws parse remc])
  also have "(if rem = [] then bitsOfSyms 0 M else bitsOfSyms 0 M OR (v XOR bf)) = v"
    using bfv by (auto simp: rem_def bf_def)
  finally show ?thesis using fmt by blast
qed

lemma flags_roundtrip_zero:
  assumes wf: "wf_type t" and k: "isUintKind (TypeKind t)"
    and z: "UintV 0 \<in> snd ` set (symbols t)"
    and ci: "ci \<longrightarrow> distinct (map (\<lambda>m. strings_ToLower (Name m)) (Methods t))"
  shows "\<exists>s. StringUintFlags 0 t base = Return s \<and> ParseUintFlags (PtrTo t) s ci = Return (0, None)"
proof -
  from z obtain n w where f: "find (\<lambda>p. snd p = UintV 0) (symbols t) = Some (n, w)"
    by (cases "find (\<lambda>p. snd p = UintV 0) (symbols t)") (auto simp: find_None_iff)
  then have mem: "(n, w) \<in> set (symbols t)" and w: "w = UintV 0"
    using find_SomeE[of "\<lambda>p. snd p = UintV 0" "symbols t" "(n, w)"] by auto
  have tr: "GetSymbols_loop t (Methods t) (traced (StringUintFlags_esi 0)) ([], (0, [])) =
             Return ([] @ map (\<lambda>p. (fst p, snd p, False))
                         (takeWhile (\<lambda>p. snd p \<noteq> UintV 0) (symbolsOf t (Methods t)))
                     @ [(n, UintV 0, True)], (0, n))"
    using f wf_type_returns[OF wf] k
    by (intro zero_flag_loop) (simp_all add: symbols_def)
  from traced_untraced[OF tr]
  have fmt: "StringUintFlags 0 t base = Return n"
    by (simp add: StringUintFlags_def GetSymbols_def)
  have pl: "plain n" by (rule symbol_name_plain[OF wf mem])
  have raws: "list_all2 (\<lambda>r p. strings_TrimSpace r = p)
                (strings_Split (joinNames [] (map fst [(n, w)] @ [])) CHR '','') (map fst [(n, w)] @ [])"
    using pl by (intro split_joinNames) simp_all
  have jn: "joinNames [] (map fst [(n, w)] @ []) = n"
    by (simp add: joinNames_def appendName_def)
  have parse: "\<forall>p\<in>set [(n, w)]. Parse (PtrTo t) (fst p) ci = Return (Some (snd p), None)
                 \<and> (\<exists>u. snd p = UintV u)"
    using Parse_symbol[OF wf ci mem] w by simp
  have "ParseUintFlags (PtrTo t) n ci = Return (bitsOfSyms 0 [(n, w)], None)"
    unfolding ParseUintFlags_def
    using ParseUintFlags_loop_pieces[OF raws[unfolded jn] parse, of 0 0] by simp
  then have "ParseUintFlags (PtrTo t) n ci = Return (0, None)"
    by (simp add: bitsOfSyms_def uintOf_def w)
  with fmt show ?thesis by blast
qed

text \<open>C1 (amended): on a flag type of an unsigned kind, for a value within the width of
  the type that is not 0 or for which the type has a zero-valued symbol, and with method
  names that stay different after lowercasing when the parser ignores case,
  \<open>ParseUintFlags\<close> of what \<open>StringUintFlags\<close> writes in base 16 returns the value and no
  error, bits that no symbol covers included.\<close>

theorem flags_roundtrip_hex:
  assumes "wf_type t" "isUintKind (TypeKind t)" "v < 2 ^ bits t"
    and "v \<noteq> 0 \<or> UintV 0 \<in> snd ` set (symbols t)"
    and "ci \<longrightarrow> distinct (map (\<lambda>m. strings_ToLower (Name m)) (Methods t))"
  shows "\<exists>s. StringUintFlags v t 16 = Return s \<and> ParseUintFlags (PtrTo t) s ci = Return (v, None)"
proof (cases "v = 0")
  case True
  with assms(4) have "UintV 0 \<in> snd ` set (symbols t)" by simp
  from flags_roundtrip_zero[OF assms(1,2) this assms(5), of 16] True show ?thesis by simp
next
  case False
  from flags_roundtrip_nonzero[OF assms(1,2,3) False assms(5)] show ?thesis .
qed

lemma StringUintFlags_Access_262:
  "StringUintFlags 262 Access 16 = Return ''Execute, Write, 0x100''"
  by code_simp

lemma distinct_lower_Access: "distinct (map (\<lambda>m. strings_ToLower (Name m)) (Methods Access))"
  by code_simp

theorem flags_roundtrip_hex_witness:
  "StringUintFlags 262 Access 16 = Return ''Execute, Write, 0x100''
   \<and> ParseUintFlags (PtrTo Access) ''Execute, Write, 0x100'' True = Return (262, None)"
proof -
  have k: "isUintKind (TypeKind Access)" by (simp add: isUintKind_def Access_def)
  have v: "(262 :: nat) < 2 ^ bits Access" by (simp add: bits_def Access_def)
  have nz: "(262 :: nat) \<noteq> 0 \<or> UintV 0 \<in> snd ` set (symbols Access)" by simp
  have d: "True \<longrightarrow> distinct (map (\<lambda>m. strings_ToLower (Name m)) (Methods Access))"
    by (simp add: distinct_lower_Access)
  from flags_roundtrip_hex[OF wf_Access k v nz d] show ?thesis
    by (simp add: StringUintFlags_Access_262)
qed

text \<open>The claim as written fails for the value 0 on a type without a zero-valued symbol:
  the formatter writes the empty string, and the parser returns an error for it.\<close>

theorem flags_roundtrip_counterexample:
  "StringUintFlags 0 Perm 16 = Return []
   \<and> ParseUintFlags (PtrTo Perm) [] False = Return (0, Some (CouldntParse [] ''Perm''))"
  by code_simp

section \<open>Looking a name up\<close>

lemma symbolsOf_memI:
  "m \<in> set ms \<Longrightarrow> isValidEnumSymbolMethod t m \<Longrightarrow> Invoke m = Return w \<Longrightarrow>
   (Name m, w) \<in> set (symbolsOf t ms)"
  by (force simp: symbolsOf_def)

lemma Parse_found:
  "findMethod t s ci = Some m \<Longrightarrow> Invoke m = Return w \<Longrightarrow>
   Parse (PtrTo t) s ci = Return (Some w, None)"
  by (simp add: Parse_def)

lemma ParseInt_found:
  "findMethod t s ci = Some m \<Longrightarrow> Invoke m = Return w \<Longrightarrow>
   ParseInt (PtrTo t) s ci strict = Return (Some w, None)"
  by (simp add: ParseInt_def Parse_found)

text \<open>C7 (amended): with \<open>caseInsensitive\<close> set the lookup compares lowercased names and
  takes the first method, in the order of the methods, whose lowercased name is the
  lowercased input. When that method is a symbol, \<open>ParseInt\<close> returns its value, the same
  value that the case-sensitive \<open>ParseInt\<close> returns for the symbol's own name. So "red" and
  "RED" give the value of the symbol "Red" when "Red" is the first method whose lowercased
  name is "red".\<close>

theorem caseInsensitive_first_match:
  assumes "wf_type t"
    and "find (\<lambda>m. strings_ToLower (Name m) = strings_ToLower s) (Methods t) = Some m"
    and "isValidEnumSymbolMethod t m"
  shows "(\<exists>w. (Name m, w) \<in> set (symbols t)
            \<and> ParseInt (PtrTo t) s True strict = Return (Some w, None)
            \<and> ParseInt (PtrTo t) (Name m) False strict = Return (Some w, None))
         \<and> (\<exists>i<length (Methods t). Methods t ! i = m
              \<and> (\<forall>j<i. strings_ToLower (Name (Methods t ! j)) \<noteq> strings_ToLower s))"
proof -
  from find_SomeE[OF assms(2)] have mem: "m \<in> set (Methods t)" by simp
  from wf_type_returns[OF assms(1)] mem have "symbolReturns t m" by blast
  with assms(3) obtain w where w: "Invoke m = Return w"
    by (cases "Invoke m") (simp_all add: symbolReturns_def)
  have sym: "(Name m, w) \<in> set (symbols t)"
    unfolding symbols_def by (rule symbolsOf_memI[OF mem assms(3) w])
  have f1: "findMethod t s True = Some m" using assms(2) by (simp add: findMethod_def)
  have d: "distinct (map Name (Methods t))" using assms(1) by (simp add: wf_type_def)
  have f2: "findMethod t (Name m) False = Some m"
    using find_distinct_key[OF d mem] by (simp add: findMethod_def MethodByName_def)
  have idx: "\<exists>i<length (Methods t). Methods t ! i = m
              \<and> (\<forall>j<i. strings_ToLower (Name (Methods t ! j)) \<noteq> strings_ToLower s)"
    using assms(2) by (auto simp: find_Some_iff)
  from ParseInt_found[OF f1 w] ParseInt_found[OF f2 w] sym idx show ?thesis by blast
qed

lemma find_red_Color:
  "find (\<lambda>m. strings_ToLower (Name m) = strings_ToLower ''red'') (Methods Color)
     = Some (symbolMethod ''Red'' (IntV 1))"
  by code_simp

lemma find_RED_Color:
  "find (\<lambda>m. strings_ToLower (Name m) = strings_ToLower ''RED'') (Methods Color)
     = Some (symbolMethod ''Red'' (IntV 1))"
  by code_simp

theorem caseInsensitive_first_match_witness:
  "ParseInt (PtrTo Color) ''red'' True False = Return (Some (IntV 1), None)
   \<and> ParseInt (PtrTo Color) ''RED'' True False = Return (Some (IntV 1), None)
   \<and> ParseInt (PtrTo Color) ''Red'' False False = Return (Some (IntV 1), None)"
proof -
  have v: "isValidEnumSymbolMethod Color (symbolMethod ''Red'' (IntV 1))"
    by (simp add: isValidEnumSymbolMethod_def symbolMethod_def)
  have n: "Name (symbolMethod ''Red'' (IntV 1)) = ''Red''" by (simp add: symbolMethod_def)
  from caseInsensitive_first_match[OF wf_Color find_red_Color v, of False]
       caseInsensitive_first_match[OF wf_Color find_RED_Color v, of False]
  show ?thesis by (auto simp: n symbols_Color)
qed

text \<open>The claim as written fails on a type with the symbols \<open>RED\<close> and \<open>Red\<close>: ignoring
  case, "red" and "RED" find \<open>RED\<close>, the first of the two, and not \<open>Red\<close>.\<close>

theorem caseInsensitive_counterexample:
  "(''Red'', IntV 1) \<in> set (symbols Shade)
   \<and> ParseInt (PtrTo Shade) ''red'' True False = Return (Some (IntV 5), None)
   \<and> ParseInt (PtrTo Shade) ''RED'' True False = Return (Some (IntV 5), None)
   \<and> ParseInt (PtrTo Shade) ''Red'' False False = Return (Some (IntV 1), None)"
  by code_simp

section \<open>What the parsers return\<close>

lemma ParseInt_strict_not_found:
  "findMethod t s ci = None \<Longrightarrow>
   ParseInt (PtrTo t) s ci True = Return (None, Some (CouldntParse s (TypeName t)))"
  by (simp add: ParseInt_def Parse_not_found)

lemma Parse_returns:
  "Parse tp s ci = Return (v, e) \<Longrightarrow>
   (v = None \<longleftrightarrow> e \<noteq> None) \<and> (e \<noteq> None \<longrightarrow> e = Some (CouldntParse s (TypeName (Elem tp))))"
  by (cases "findMethod (Elem tp) s ci"; cases "Invoke (the (findMethod (Elem tp) s ci))")
     (auto simp: Parse_def Let_def)

lemma ParseInt_returns:
  assumes "ParseInt tp s ci strict = Return (v, e)"
  shows "(v = None \<longleftrightarrow> e \<noteq> None) \<and> (e \<noteq> None \<longrightarrow> e = Some (CouldntParse s (TypeName (Elem tp))))"
proof (cases "Parse tp s ci")
  case Panic
  with assms show ?thesis by (simp add: ParseInt_def)
next
  case (Return r)
  obtain v0 e0 where r: "r = (v0, e0)" by (cases r)
  note p = Parse_returns[OF Return[unfolded r]]
  show ?thesis
  proof (cases "e0 = None \<or> strict")
    case True
    with assms Return r have "v = v0" "e = e0" by (simp_all add: ParseInt_def)
    with p show ?thesis by simp
  next
    case False
    with p have e0: "e0 = Some (CouldntParse s (TypeName (Elem tp)))" and v0: "v0 = None" by auto
    let ?k = "TypeKind (Elem tp)"
    let ?bs = "int (TypeSize (Elem tp)) * 8"
    show ?thesis
    proof (cases "?k = KInt \<or> ?k = KInt8 \<or> ?k = KInt16 \<or> ?k = KInt32 \<or> ?k = KInt64")
      case True
      with assms Return r False v0 e0
      have "(case strconv_ParseInt s 0 ?bs of
              (intVal, None) \<Rightarrow> (case SetInt ?k intVal of Panic \<Rightarrow> Panic
                                   | Return val \<Rightarrow> Return (Some val, None))
            | (intVal, Some parseErr) \<Rightarrow> Return (None, Some (CouldntParse s (TypeName (Elem tp)))))
            = Return (v, e)"
        by (simp add: ParseInt_def Let_def)
      then show ?thesis
        by (cases "strconv_ParseInt s 0 ?bs"; cases "snd (strconv_ParseInt s 0 ?bs)";
            cases "SetInt ?k (fst (strconv_ParseInt s 0 ?bs))") auto
    next
      case nk: False
      with assms Return r False v0 e0
      have "(case strconv_ParseUint s 0 ?bs of
              (intVal, None) \<Rightarrow> (case SetUint ?k intVal of Panic \<Rightarrow> Panic
                                   | Return val \<Rightarrow> Return (Some val, None))
            | (intVal, Some parseErr) \<Rightarrow> Return (None, Some (CouldntParse s (TypeName (Elem tp)))))
            = Return (v, e)"
        by (simp add: ParseInt_def Let_def)
      then show ?thesis
        by (cases "strconv_ParseUint s 0 ?bs"; cases "snd (strconv_ParseUint s 0 ?bs)";
            cases "SetUint ?k (fst (strconv_ParseUint s 0 ?bs))") auto
    qed
  qed
qed

lemma ParseUintFlags_loop_step_ok:
  assumes "pieceOK tp ci f"
  shows "\<exists>val'. ParseUintFlags_loop tp ci (f # rest) val = ParseUintFlags_loop tp ci rest val'"
proof -
  obtain t where tp: "tp = PtrTo t" by (cases tp)
  from assms show ?thesis unfolding pieceOK_def
  proof
    assume "\<exists>u. Parse tp (strings_TrimSpace f) ci = Return (Some (UintV u), None)"
    then obtain u where "Parse tp (strings_TrimSpace f) ci = Return (Some (UintV u), None)" ..
    then have "ParseUintFlags_loop tp ci (f # rest) val = ParseUintFlags_loop tp ci rest (val OR u)"
      by (simp add: Uint_def)
    then show ?thesis ..
  next
    assume a: "findMethod (Elem tp) (strings_TrimSpace f) ci = None
        \<and> snd (strconv_ParseUint (strings_TrimSpace f) 0 (int (TypeSize (Elem tp)) * 8)) = None"
    then obtain i where i: "strconv_ParseUint (strings_TrimSpace f) 0 (int (TypeSize (Elem tp)) * 8) = (i, None)"
      by (cases "strconv_ParseUint (strings_TrimSpace f) 0 (int (TypeSize (Elem tp)) * 8)") auto
    from a have "Parse tp (strings_TrimSpace f) ci =
        Return (None, Some (CouldntParse (strings_TrimSpace f) (TypeName t)))"
      by (simp add: tp Parse_not_found)
    with i have "ParseUintFlags_loop tp ci (f # rest) val = ParseUintFlags_loop tp ci rest (val OR i)"
      by (simp add: tp)
    then show ?thesis ..
  qed
qed

lemma ParseUintFlags_loop_first_bad:
  assumes "\<forall>f\<in>set pre. pieceOK tp ci f"
    and "findMethod (Elem tp) (strings_TrimSpace b) ci = None"
    and "snd (strconv_ParseUint (strings_TrimSpace b) 0 (int (TypeSize (Elem tp)) * 8)) \<noteq> None"
  shows "ParseUintFlags_loop tp ci (pre @ b # post) val =
           Return (0, Some (CouldntParse (strings_TrimSpace b) (TypeName (Elem tp))))"
  using assms(1)
proof (induction pre arbitrary: val)
  case Nil
  obtain t where tp: "tp = PtrTo t" by (cases tp)
  from assms(3) obtain i e where
    i: "strconv_ParseUint (strings_TrimSpace b) 0 (int (TypeSize (Elem tp)) * 8) = (i, Some e)"
    by (cases "strconv_ParseUint (strings_TrimSpace b) 0 (int (TypeSize (Elem tp)) * 8)") auto
  from assms(2) have "Parse tp (strings_TrimSpace b) ci =
      Return (None, Some (CouldntParse (strings_TrimSpace b) (TypeName t)))"
    by (simp add: tp Parse_not_found)
  with i show ?case by (simp add: tp)
next
  case (Cons f pre)
  then have ok: "pieceOK tp ci f" and rest: "\<forall>f\<in>set pre. pieceOK tp ci f" by simp_all
  from ParseUintFlags_loop_step_ok[OF ok, of "pre @ b # post" val] obtain val' where
    "ParseUintFlags_loop tp ci (f # pre @ b # post) val = ParseUintFlags_loop tp ci (pre @ b # post) val'"
    by blast
  with Cons.IH[OF rest, of val'] show ?case by simp
qed

lemma ParseUintFlags_String: "ParseUintFlags (PtrTo Access) ''String'' True = Panic"
  by code_simp

lemma String_not_symbol_Access: "''String'' \<notin> fst ` set (symbols Access)"
  by (simp add: symbols_Access)

lemma strconv_ParseUint_String: "strconv_ParseUint ''String'' 0 32 = (0, Some ErrSyntax)"
  by (simp add: strconv_ParseUint_def basePrefix_def lower_def ParseUint_step_def digitVal_def Let_def)

lemma strconv_ParseUint_0x256: "strconv_ParseUint ''0x256'' 0 32 = (598, None)"
  by (simp add: strconv_ParseUint_def basePrefix_def lower_def ParseUint_step_def digitVal_def Let_def)

lemma StringUintFlags_Access_256_10: "StringUintFlags 256 Access 10 = Return ''0x256''"
  by code_simp

section \<open>Where the code leaves the specification\<close>

text \<open>\<open>findMethod\<close> looks among all exported methods of the type, while \<open>GetSymbols\<close>
  keeps to the methods \<open>isValidEnumSymbolMethod\<close> accepts. The test types have a
  \<open>String\<close> method, which is no symbol; its result does not convert to the enum type, and
  the reflective call panics.\<close>

text \<open>C5: the text "String" is the name of no symbol of \<open>Color\<close>, and strict \<open>ParseInt\<close>
  on it panics; it does not return an error. (Where the lookup finds no method at all,
  \<open>ParseInt_strict_not_found\<close> gives the error the claim describes.)\<close>

theorem ParseInt_String_panics:
  "''String'' \<notin> fst ` set (symbols Color)
   \<and> ParseInt (PtrTo Color) ''String'' False True = Panic"
  by code_simp

text \<open>C10: lenient, case-insensitive \<open>ParseInt\<close> of "string" on \<open>Color\<close>, where no symbol
  matches and the text is no number, panics; it returns neither a value nor an error.
  (Whenever \<open>ParseInt\<close> returns, \<open>ParseInt_returns\<close> gives the pairing the claim
  describes.)\<close>

theorem ParseInt_lenient_string_panics:
  "''string'' \<notin> fst ` set (symbols Color)
   \<and> ParseInt (PtrTo Color) ''string'' True False = Panic"
  by code_simp

text \<open>C6: the piece "String" is the name of no symbol of \<open>Access\<close> and is no number, and
  \<open>ParseUintFlags\<close> on it panics; it does not return 0 with an error. (Where the pieces
  before the first bad one are accepted and the bad one names no method,
  \<open>ParseUintFlags_loop_first_bad\<close> gives 0 and the error naming that piece.)\<close>

theorem ParseUintFlags_String_panics:
  "''String'' \<notin> fst ` set (symbols Access)
   \<and> strconv_ParseUint ''String'' 0 32 = (0, Some ErrSyntax)
   \<and> ParseUintFlags (PtrTo Access) ''String'' True = Panic"
  using String_not_symbol_Access strconv_ParseUint_String ParseUintFlags_String by simp

text \<open>C3: \<open>StringUintFlags\<close> writes the prefix \<open>0x\<close> whatever the base. In base 10 the
  uncovered bits 256 come out as "0x256", a prefix that stands for base 16: read as a
  number the text is 598. (For the names and the remainder in base 16,
  \<open>StringUintFlags_nonzero\<close> gives the text the claim describes.)\<close>

theorem StringUintFlags_base10_prefix:
  "StringUintFlags 256 Access 10 = Return ''0x256''
   \<and> strconv_ParseUint ''0x256'' 0 32 = (598, None)"
  using StringUintFlags_Access_256_10 strconv_ParseUint_0x256 by simp

end
